theory Spec2Isabelle
  imports Main "HOL-Library.Multiset" "HOL-Library.Signed_Division"
begin

section \<open>The C++ standard-library operations used by slurmtop.cpp\<close>

text \<open>
  A \<open>std::string\<close> is a sequence of bytes: \<^typ>\<open>string\<close>.  Positions and lengths
  are \<open>size_t\<close>; they never leave the range of the string they index, so they are
  modelled as \<^typ>\<open>nat\<close>.  \<open>std::string::npos\<close> is \<open>None\<close>.
\<close>

text \<open>First index of \<open>cs\<close> at which \<open>pat\<close> starts.\<close>

fun search_str :: "string \<Rightarrow> string \<Rightarrow> nat option" where
  "search_str pat [] = (if pat = [] then Some 0 else None)"
| "search_str pat (c # cs) =
     (if take (length pat) (c # cs) = pat then Some 0
      else map_option Suc (search_str pat cs))"

text \<open>\<open>s.find(pat, pos)\<close>: the first position \<open>\<ge> pos\<close> at which \<open>pat\<close> starts.\<close>

definition find_str :: "string \<Rightarrow> string \<Rightarrow> nat \<Rightarrow> nat option" where
  "find_str s pat pos =
     (if length s < pos then None
      else map_option (\<lambda>i. pos + i) (search_str pat (drop pos s)))"

text \<open>First index of \<open>cs\<close> whose byte satisfies \<open>P\<close>.\<close>

fun search_if :: "(char \<Rightarrow> bool) \<Rightarrow> string \<Rightarrow> nat option" where
  "search_if P [] = None"
| "search_if P (c # cs) = (if P c then Some 0 else map_option Suc (search_if P cs))"

text \<open>\<open>s.find(ch, pos)\<close>.\<close>

definition find_chr :: "string \<Rightarrow> char \<Rightarrow> nat \<Rightarrow> nat option" where
  "find_chr s ch pos =
     (if length s < pos then None
      else map_option (\<lambda>i. pos + i) (search_if (\<lambda>c. c = ch) (drop pos s)))"

text \<open>\<open>s.find_first_of(chars, pos)\<close>.\<close>

definition find_first_of :: "string \<Rightarrow> string \<Rightarrow> nat \<Rightarrow> nat option" where
  "find_first_of s chars pos =
     (if length s < pos then None
      else map_option (\<lambda>i. pos + i) (search_if (\<lambda>c. c \<in> set chars) (drop pos s)))"

text \<open>
  \<open>s.substr(pos, n)\<close>.  The library throws \<open>std::out_of_range\<close> when
  \<open>pos > s.size()\<close>; every call in the program passes a position obtained from a
  successful \<open>find\<close> plus the length of what was found (lemmas \<open>find_str_bound\<close>,
  \<open>find_chr_bound\<close> below), so that branch is never taken.
\<close>

definition substr :: "string \<Rightarrow> nat \<Rightarrow> nat \<Rightarrow> string" where
  "substr s pos n = take n (drop pos s)"

text \<open>\<open>isspace\<close> and \<open>isdigit\<close> in the C locale.\<close>

definition isspace :: "char \<Rightarrow> bool" where
  "isspace c \<longleftrightarrow> c \<in> {CHR '' '', CHR 0x09, CHR 0x0A, CHR 0x0B, CHR 0x0C, CHR 0x0D}"

definition isdigit :: "char \<Rightarrow> bool" where
  "isdigit c \<longleftrightarrow> (48::nat) \<le> of_char c \<and> of_char c \<le> (57::nat)"

definition digit_value :: "char \<Rightarrow> int" where
  "digit_value c = int (of_char c) - 48"

text \<open>
  The text-to-integer conversion shared by \<open>std::stoi\<close> and \<open>std::stol\<close> (both call
  \<open>strtol\<close> with base 10): leading white space is skipped, one optional sign is read,
  then the longest run of decimal digits.  No digit at all is \<open>std::invalid_argument\<close>;
  a value outside the result type is \<open>std::out_of_range\<close>.
\<close>

datatype conv_error = InvalidArgument | OutOfRange

definition parse_decimal :: "string \<Rightarrow> int option" where
  "parse_decimal s =
     (let s1 = dropWhile isspace s;
          neg = (s1 \<noteq> [] \<and> hd s1 = CHR ''-'');
          s2 = (if s1 \<noteq> [] \<and> (hd s1 = CHR ''-'' \<or> hd s1 = CHR ''+'') then tl s1 else s1);
          ds = takeWhile isdigit s2
      in if ds = [] then None
         else Some ((if neg then - 1 else 1) * foldl (\<lambda>a c. 10 * a + digit_value c) 0 ds))"

definition stoi :: "string \<Rightarrow> conv_error + int" where
  "stoi s =
     (case parse_decimal s of
        None \<Rightarrow> Inl InvalidArgument
      | Some v \<Rightarrow> if v < - (2 ^ 31) \<or> 2 ^ 31 - 1 < v then Inl OutOfRange else Inr v)"

definition stol :: "string \<Rightarrow> conv_error + int" where
  "stol s =
     (case parse_decimal s of
        None \<Rightarrow> Inl InvalidArgument
      | Some v \<Rightarrow> if v < - (2 ^ 63) \<or> 2 ^ 63 - 1 < v then Inl OutOfRange else Inr v)"

text \<open>\<open>std::to_string\<close> of an integer: decimal digits, with a leading minus sign.\<close>

fun nat_digits :: "nat \<Rightarrow> string" where
  "nat_digits n =
     (if n < 10 then [char_of (48 + n)]
      else nat_digits (n div 10) @ [char_of (48 + n mod 10)])"

declare nat_digits.simps [simp del]

definition to_string :: "int \<Rightarrow> string" where
  "to_string i = (if i < 0 then CHR ''-'' # nat_digits (nat (- i)) else nat_digits (nat i))"

text \<open>
  \<open>std::sort(first, last, comp)\<close>.  The standard fixes the result only up to the order
  of equivalent elements; the model is the insertion sort that keeps them in their
  original order.  The properties proved below (the result is a permutation, and no
  element is \<open>comp\<close>-before an earlier one) are those the standard guarantees for
  every implementation.
\<close>

fun sort_insert :: "('a \<Rightarrow> 'a \<Rightarrow> bool) \<Rightarrow> 'a \<Rightarrow> 'a list \<Rightarrow> 'a list" where
  "sort_insert lt x [] = [x]"
| "sort_insert lt x (y # ys) =
     (if lt y x then y # sort_insert lt x ys else x # y # ys)"

fun std_sort :: "('a \<Rightarrow> 'a \<Rightarrow> bool) \<Rightarrow> 'a list \<Rightarrow> 'a list" where
  "std_sort lt [] = []"
| "std_sort lt (x # xs) = sort_insert lt x (std_sort lt xs)"


section \<open>Job records and the parsing pipeline\<close>

record Job =
  jobId :: string
  jobName :: string
  account :: string
  state :: string
  reason :: string
  gpuCount :: int
  gpuType :: string
  runtime :: string
  timeLimit :: string
  priority :: int

text \<open>
  \<open>stripControlChars\<close>: the loop appends each printable byte, a space for each tab,
  and nothing for any other byte.  A \<open>char\<close> compared with \<open>32\<close> and \<open>126\<close> is a
  byte value; bytes above 127 fail the test whether \<open>char\<close> is signed or not.
\<close>

fun stripControlChars :: "string \<Rightarrow> string" where
  "stripControlChars [] = []"
| "stripControlChars (c # cs) =
     (if (32::nat) \<le> of_char c \<and> of_char c \<le> (126::nat) then c # stripControlChars cs
      else if c = CHR 0x09 then CHR '' '' # stripControlChars cs
      else stripControlChars cs)"

definition extractField :: "string \<Rightarrow> string \<Rightarrow> string" where
  "extractField output fieldName =
     (case find_str output (fieldName @ ''='') 0 of
        None \<Rightarrow> []
      | Some p \<Rightarrow>
          let pos = p + (length fieldName + 1);
              endPos = (case find_chr output CHR '' '' pos of
                       Some e \<Rightarrow> e
                     | None \<Rightarrow> (case find_chr output CHR 0x0A pos of
                                  Some e \<Rightarrow> e
                                | None \<Rightarrow> length output))
          in stripControlChars (substr output pos (endPos - pos)))"

definition extractGPUInfo :: "string \<Rightarrow> string \<Rightarrow> int \<times> string" where
  "extractGPUInfo output fieldName =
     (case find_str output (fieldName @ ''='') 0 of
        None \<Rightarrow> (0, ''N/A'')
      | Some fieldPos \<Rightarrow>
          let searchStart = fieldPos;
              untyped =
                (case find_str output ''gres/gpu='' searchStart of
                   None \<Rightarrow> (0, ''N/A'')
                 | Some untypedGresPos \<Rightarrow>
                     let countStart = untypedGresPos + 9;
                         countEnd = (case find_first_of output [CHR '' '', CHR '','', CHR 0x0A] countStart of
                                       Some e \<Rightarrow> e | None \<Rightarrow> length output);
                         countStr = substr output countStart (countEnd - countStart)
                     in ((case stoi countStr of Inr v \<Rightarrow> v | Inl _ \<Rightarrow> 0), ''generic''))
          in (case find_str output ''gres/gpu:'' searchStart of
                None \<Rightarrow> untyped
              | Some typedGresPos \<Rightarrow>
                  let typeStart = typedGresPos + 9
                  in (case find_chr output CHR ''='' typeStart of
                        None \<Rightarrow> untyped
                      | Some typeEnd \<Rightarrow>
                          let gpuType = stripControlChars (substr output typeStart (typeEnd - typeStart));
                              countStart = typeEnd + 1;
                              countEnd = (case find_first_of output [CHR '' '', CHR '','', CHR 0x0A] countStart of
                                            Some e \<Rightarrow> e | None \<Rightarrow> length output);
                              countStr = substr output countStart (countEnd - countStart)
                          in ((case stoi countStr of Inr v \<Rightarrow> v | Inl _ \<Rightarrow> 0), gpuType))))"

definition parseJobDetails :: "string \<Rightarrow> string \<Rightarrow> Job" where
  "parseJobDetails jid scontrolOutput =
     (let st = extractField scontrolOutput ''JobState'';
          priorityStr = extractField scontrolOutput ''Priority'';
          gpu = (if st = ''RUNNING'' then extractGPUInfo scontrolOutput ''AllocTRES''
                 else let r = extractGPUInfo scontrolOutput ''ReqTRES''
                      in if fst r = 0 then extractGPUInfo scontrolOutput ''AllocTRES'' else r)
      in \<lparr> jobId = jid,
           jobName = extractField scontrolOutput ''JobName'',
           account = extractField scontrolOutput ''Account'',
           state = st,
           reason = extractField scontrolOutput ''Reason'',
           gpuCount = fst gpu,
           gpuType = snd gpu,
           runtime = extractField scontrolOutput ''RunTime'',
           timeLimit = extractField scontrolOutput ''TimeLimit'',
           priority = (case stol priorityStr of Inr v \<Rightarrow> v | Inl _ \<Rightarrow> 0) \<rparr>)"


section \<open>The snapshot aggregator\<close>

record SlurmData =
  username :: string
  jobs :: "Job list"
  allPendingJobs :: "Job list"
  totalJobs :: int
  runningJobs :: int
  pendingJobs :: int
  gpuTypeCount :: "string \<rightharpoonup> int"
  gpuTypeRequested :: "string \<rightharpoonup> int"

definition clear :: "SlurmData \<Rightarrow> SlurmData" where
  "clear d = d\<lparr> jobs := [], allPendingJobs := [], gpuTypeCount := Map.empty,
               gpuTypeRequested := Map.empty, totalJobs := 0, runningJobs := 0,
               pendingJobs := 0 \<rparr>"

text \<open>\<open>m[key] += n\<close> on a \<open>std::map<std::string, int>\<close>: a missing key starts at 0.\<close>

definition add_to_key :: "(string \<rightharpoonup> int) \<Rightarrow> string \<Rightarrow> int \<Rightarrow> (string \<rightharpoonup> int)" where
  "add_to_key m k n = m(k \<mapsto> (case m k of None \<Rightarrow> 0 | Some c \<Rightarrow> c) + n)"

text \<open>
  \<open>iss >> jobId\<close> in a loop: the white-space separated words of the text.  The first
  argument is the word read so far.
\<close>

fun words_from :: "string \<Rightarrow> string \<Rightarrow> string list" where
  "words_from cur [] = (if cur = [] then [] else [cur])"
| "words_from cur (c # cs) =
     (if isspace c then (if cur = [] then words_from [] cs else cur # words_from [] cs)
      else words_from (cur @ [c]) cs)"

text \<open>
  \<open>execCommand\<close> runs a shell command and returns what it printed.  The commands are
  the scheduler's; nothing is known about their output, and the same command may
  print something else the next time.  So the outside world is a state \<open>'w\<close>, and
  \<open>exec\<close> maps a world and a command to the output and the next world.
\<close>

type_synonym 'w execCommand = "'w \<Rightarrow> string \<Rightarrow> string \<times> 'w"

text \<open>The body of the first loop of \<open>fetchSlurmData\<close>, for a job whose blob is not empty.\<close>

definition count_job :: "Job \<Rightarrow> SlurmData \<Rightarrow> SlurmData" where
  "count_job job d =
     (let d1 = d\<lparr> jobs := jobs d @ [job] \<rparr>
      in if state job = ''RUNNING'' then
           let d2 = d1\<lparr> runningJobs := runningJobs d1 + 1 \<rparr>
           in if gpuCount job > 0
              then d2\<lparr> gpuTypeCount := add_to_key (gpuTypeCount d2) (gpuType job) (gpuCount job) \<rparr>
              else d2
         else if state job = ''PENDING'' then
           let d2 = d1\<lparr> pendingJobs := pendingJobs d1 + 1 \<rparr>
           in if gpuCount job > 0
              then d2\<lparr> gpuTypeRequested := add_to_key (gpuTypeRequested d2) (gpuType job) (gpuCount job) \<rparr>
              else d2
         else d1)"

fun fetch_owned :: "'w execCommand \<Rightarrow> string list \<Rightarrow> 'w \<Rightarrow> SlurmData \<Rightarrow> 'w \<times> SlurmData" where
  "fetch_owned exec [] w d = (w, d)"
| "fetch_owned exec (jid # rest) w d =
     (case exec w (''scontrol show job '' @ jid @ '' 2>/dev/null'') of
        (output, w') \<Rightarrow>
          if output \<noteq> [] then fetch_owned exec rest w' (count_job (parseJobDetails jid output) d)
          else fetch_owned exec rest w' d)"

fun fetch_pending :: "'w execCommand \<Rightarrow> string list \<Rightarrow> 'w \<Rightarrow> SlurmData \<Rightarrow> 'w \<times> SlurmData" where
  "fetch_pending exec [] w d = (w, d)"
| "fetch_pending exec (jid # rest) w d =
     (case exec w (''scontrol show job '' @ jid @ '' 2>/dev/null'') of
        (output, w') \<Rightarrow>
          if output \<noteq> [] then
            let job = parseJobDetails jid output
            in if priority job > 0
               then fetch_pending exec rest w' (d\<lparr> allPendingJobs := allPendingJobs d @ [job] \<rparr>)
               else fetch_pending exec rest w' d
          else fetch_pending exec rest w' d)"

definition fetchSlurmData :: "'w execCommand \<Rightarrow> 'w \<Rightarrow> SlurmData \<Rightarrow> 'w \<times> SlurmData" where
  "fetchSlurmData exec w d =
     (let d0 = clear d;
          (jobIdsOutput, w1) = exec w (''squeue -u '' @ username d0 @ '' -h -o '' @ [CHR 0x22] @ ''%i'' @ [CHR 0x22]);
          jobIds = words_from [] jobIdsOutput;
          (w2, d1) = fetch_owned exec jobIds w1 d0;
          d2 = d1\<lparr> totalJobs := int (length (jobs d1)) \<rparr>;
          (allPendingOutput, w3) = exec w2 (''squeue -h -t PD -o '' @ [CHR 0x22] @ ''%i'' @ [CHR 0x22]);
          (w4, d3) = fetch_pending exec (words_from [] allPendingOutput) w3 d2
      in (w4, d3\<lparr> allPendingJobs :=
                    std_sort (\<lambda>a b. priority a > priority b) (allPendingJobs d3) \<rparr>))"

section \<open>The view and input state machine\<close>

text \<open>The enumeration \<open>View\<close>; its last member \<open>ALL\<close> is written \<open>ALL_VIEW\<close> here.\<close>

datatype View = OVERVIEW | RUNNING | PENDING | ALL_VIEW

record SlurmTopUI =
  currentView :: View
  scrollOffset :: int
  maxRows :: int
  data :: SlurmData
  running :: bool
  focusedColumn :: int

text \<open>
  The key codes that \<open>getch\<close> returns, from \<open>ncurses.h\<close>.  A printable key is its
  character code.
\<close>

definition ERR :: int where "ERR = - 1"

definition KEY_DOWN :: int where "KEY_DOWN = 258"

definition KEY_UP :: int where "KEY_UP = 259"

definition KEY_LEFT :: int where "KEY_LEFT = 260"

definition KEY_RIGHT :: int where "KEY_RIGHT = 261"

definition KEY_NPAGE :: int where "KEY_NPAGE = 338"

definition KEY_PPAGE :: int where "KEY_PPAGE = 339"

definition KEY_RESIZE :: int where "KEY_RESIZE = 410"

definition key :: "char \<Rightarrow> int" where
  "key c = int (of_char c)"

definition select_view :: "View \<Rightarrow> SlurmTopUI \<Rightarrow> SlurmTopUI" where
  "select_view v ui = ui\<lparr> currentView := v, scrollOffset := 0, focusedColumn := - 1 \<rparr>"

text \<open>
  \<open>handleInput\<close>, with the key that \<open>getch\<close> returned as an argument.  The result is
  the \<open>needRedraw\<close> flag, the outside world and the interface state.
\<close>

definition handleInput :: "'w execCommand \<Rightarrow> int \<Rightarrow> 'w \<Rightarrow> SlurmTopUI \<Rightarrow> bool \<times> 'w \<times> SlurmTopUI" where
  "handleInput exec ch w ui =
     (if ch = ERR then (False, w, ui)
      else
        let (needRedraw, w', ui1) =
          (if ch = key CHR ''q'' \<or> ch = key CHR ''Q'' then (True, w, ui\<lparr> running := False \<rparr>)
           else if ch = key CHR ''r'' \<or> ch = key CHR ''R'' then
             (case fetchSlurmData exec w (data ui) of
                (w1, d) \<Rightarrow> (True, w1, ui\<lparr> data := d, scrollOffset := 0 \<rparr>))
           else if ch = key CHR ''1'' then (True, w, select_view OVERVIEW ui)
           else if ch = key CHR ''2'' then (True, w, select_view RUNNING ui)
           else if ch = key CHR ''3'' then (True, w, select_view PENDING ui)
           else if ch = key CHR ''4'' then (True, w, select_view ALL_VIEW ui)
           else if ch = KEY_UP then
             (True, w, if scrollOffset ui > 0 then ui\<lparr> scrollOffset := scrollOffset ui - 1 \<rparr> else ui)
           else if ch = KEY_DOWN then (True, w, ui\<lparr> scrollOffset := scrollOffset ui + 1 \<rparr>)
           else if ch = KEY_LEFT then
             (True, w,
              if currentView ui \<noteq> OVERVIEW then
                let f = focusedColumn ui - 1;
                    maxCol = (if currentView ui = PENDING then 8 else 7)
                in ui\<lparr> focusedColumn := (if f < - 1 then maxCol else f) \<rparr>
              else ui)
           else if ch = KEY_RIGHT then
             (True, w,
              if currentView ui \<noteq> OVERVIEW then
                let f = focusedColumn ui + 1;
                    maxCol = (if currentView ui = PENDING then 8 else 7)
                in ui\<lparr> focusedColumn := (if f > maxCol then - 1 else f) \<rparr>
              else ui)
           else if ch = KEY_PPAGE then
             (True, w, ui\<lparr> scrollOffset := max 0 (scrollOffset ui - maxRows ui) \<rparr>)
           else if ch = KEY_NPAGE then
             (True, w, ui\<lparr> scrollOffset := scrollOffset ui + maxRows ui \<rparr>)
           else if ch = KEY_RESIZE then (True, w, ui)
           else (False, w, ui))
        in (needRedraw, w',
            if scrollOffset ui1 < 0 then ui1\<lparr> scrollOffset := 0 \<rparr> else ui1))"

section \<open>The pending view\<close>

text \<open>
  \<open>drawPendingView\<close> first collects the jobs of the snapshot whose state is
  \<open>PENDING\<close> and sorts them; the table loop then prints the rows
  \<open>pendingJobs[i]\<close> for \<open>i = scrollOffset, scrollOffset + 1, \<dots>\<close> while fewer than
  \<open>maxRows\<close> rows have been printed.
\<close>

definition pendingViewJobs :: "SlurmData \<Rightarrow> Job list" where
  "pendingViewJobs d =
     std_sort (\<lambda>a b. priority a > priority b)
       (filter (\<lambda>job. state job = ''PENDING'') (jobs d))"

function table_rows :: "Job list \<Rightarrow> int \<Rightarrow> nat \<Rightarrow> int \<Rightarrow> Job list" where
  "table_rows js maxR i displayedRows =
     (if i < length js \<and> displayedRows < maxR
      then js ! i # table_rows js maxR (Suc i) (displayedRows + 1)
      else [])"
  by pat_completeness auto

termination
  by (relation "measure (\<lambda>(js, maxR, i, displayedRows). length js - i)") auto

declare table_rows.simps [simp del]

text \<open>
  The rows of the pending view on a terminal with \<open>rows\<close> lines.  The scroll offset is
  never negative (\<open>handleInput\<close> clamps it), so its conversion to \<open>size_t\<close> keeps it.
\<close>

definition drawPendingView_rows :: "SlurmTopUI \<Rightarrow> int \<Rightarrow> Job list" where
  "drawPendingView_rows ui rows =
     table_rows (pendingViewJobs (data ui)) (rows - 6) (nat (scrollOffset ui)) 0"

section \<open>The adaptive column layout engine\<close>

text \<open>
  A \<open>for\<close> loop \<open>for (int i = i0; i < n && cond; i++) body\<close> over a state \<open>s\<close>:
  \<open>cond\<close> is the part of the loop condition that reads the state.
\<close>

function for_loop :: "nat \<Rightarrow> nat \<Rightarrow> ('s \<Rightarrow> bool) \<Rightarrow> (nat \<Rightarrow> 's \<Rightarrow> 's) \<Rightarrow> 's \<Rightarrow> 's" where
  "for_loop i n cond body s =
     (if i < n \<and> cond s then for_loop (Suc i) n cond body (body i s) else s)"
  by pat_completeness auto

termination
  by (relation "measure (\<lambda>(i, n, cond, body, s). n - i)") auto

declare for_loop.simps [simp del]

definition pendingHeaders :: "string list" where
  "pendingHeaders = [''JobID'', ''JobName'', ''Account'', ''Reason'', ''TimeLimit'', ''GPUs'',
                     ''GPU Type'', ''Priority'', ''Higher'']"

definition runningHeaders :: "string list" where
  "runningHeaders = [''JobID'', ''JobName'', ''Account'', ''Runtime'', ''TimeLimit'', ''GPUs'',
                     ''GPU Type'', ''Status'']"

text \<open>
  The length of one job's cell in a column: the two \<open>switch\<close> statements of
  \<open>getMaxColumnWidth\<close>.  \<open>allPending\<close> is \<open>data.allPendingJobs\<close>, read by the
  \<open>Higher\<close> column.  A column index without a \<open>case\<close> leaves \<open>len\<close> at 0.
\<close>

definition column_len :: "Job list \<Rightarrow> nat \<Rightarrow> Job \<Rightarrow> bool \<Rightarrow> int" where
  "column_len allPending columnIndex job isPendingView =
     (if isPendingView then
        (if columnIndex = 0 then int (length (jobId job))
         else if columnIndex = 1 then int (length (jobName job))
         else if columnIndex = 2 then int (length (account job))
         else if columnIndex = 3 then int (length (reason job))
         else if columnIndex = 4 then int (length (timeLimit job))
         else if columnIndex = 5 then int (length (to_string (gpuCount job)))
         else if columnIndex = 6 then int (length (gpuType job))
         else if columnIndex = 7 then int (length (to_string (priority job)))
         else if columnIndex = 8 then
           (let higherCount = int (length (filter (\<lambda>other. priority other > priority job) allPending))
            in int (length (to_string higherCount)))
         else 0)
      else
        (if columnIndex = 0 then int (length (jobId job))
         else if columnIndex = 1 then int (length (jobName job))
         else if columnIndex = 2 then int (length (account job))
         else if columnIndex = 3 then int (length (runtime job))
         else if columnIndex = 4 then int (length (timeLimit job))
         else if columnIndex = 5 then int (length (to_string (gpuCount job)))
         else if columnIndex = 6 then int (length (gpuType job))
         else if columnIndex = 7 then int (length (state job))
         else 0))"

text \<open>
  \<open>getMaxColumnWidth\<close>.  The header arrays have 9 and 8 entries; the callers keep
  \<open>columnIndex\<close> below the number of columns of the view.
\<close>

definition getMaxColumnWidth :: "Job list \<Rightarrow> nat \<Rightarrow> Job list \<Rightarrow> bool \<Rightarrow> int" where
  "getMaxColumnWidth allPending columnIndex js isPendingView =
     (let header = (if isPendingView then pendingHeaders ! columnIndex
                    else runningHeaders ! columnIndex);
          maxWidth = foldl (\<lambda>mw job. max mw (column_len allPending columnIndex job isPendingView))
                       (int (length header)) js
      in min (maxWidth + 1) 50)"

text \<open>
  The bodies of the loops of \<open>calculateColumnWidths\<close>.  The state of a loop is
  the width array, paired with \<open>leftover\<close> or \<open>extraSpace\<close> where the loop
  changes it; \<open>req i\<close> is \<open>getMaxColumnWidth(i, jobs, isPendingView)\<close>, which the
  default mode keeps in \<open>requiredWidths[i]\<close>; \<open>f\<close> is the focused column.
  Integer division truncates (\<open>sdiv\<close>).
\<close>

definition cap_step :: "(nat \<Rightarrow> int) \<Rightarrow> nat \<Rightarrow> int \<Rightarrow> nat \<Rightarrow> int list \<Rightarrow> int list" where
  "cap_step req f widthPerOtherColumn i ws =
     (if i \<noteq> f then ws[i := min (req i) widthPerOtherColumn] else ws)"

definition used_step :: "nat \<Rightarrow> int list \<Rightarrow> nat \<Rightarrow> int \<Rightarrow> int" where
  "used_step f ws i usedByOthers = (if i \<noteq> f then usedByOthers + ws ! i else usedByOthers)"

definition grow_step :: "(nat \<Rightarrow> int) \<Rightarrow> nat \<Rightarrow> nat \<Rightarrow> int list \<times> int \<Rightarrow> int list \<times> int" where
  "grow_step req f i = (\<lambda>(ws, leftover).
     if i \<noteq> f then
       let canGrow = req i - ws ! i
       in if canGrow > 0 then
            let toAdd = min canGrow leftover
            in (ws[i := ws ! i + toAdd], leftover - toAdd)
          else (ws, leftover)
     else (ws, leftover))"

definition spread_step :: "nat \<Rightarrow> nat \<Rightarrow> int list \<times> int \<Rightarrow> int list \<times> int" where
  "spread_step f i = (\<lambda>(ws, leftover).
     if i \<noteq> f then (ws[i := ws ! i + 1], leftover - 1) else (ws, leftover))"

definition share_step :: "(nat \<Rightarrow> int) \<Rightarrow> int \<Rightarrow> nat \<Rightarrow> int list \<times> int \<Rightarrow> int list \<times> int" where
  "share_step req totalRequired i = (\<lambda>(ws, extraSpace).
     let proportionalExtra = (req i * extraSpace) sdiv totalRequired;
         maxGrowth = min proportionalExtra 20
     in (ws[i := ws ! i + maxGrowth], extraSpace - maxGrowth))"

definition even_step :: "nat \<Rightarrow> int list \<times> int \<Rightarrow> int list \<times> int" where
  "even_step i = (\<lambda>(ws, extraSpace). (ws[i := ws ! i + 1], extraSpace - 1))"

definition shrink_step :: "(nat \<Rightarrow> int) \<Rightarrow> int \<Rightarrow> int \<Rightarrow> nat \<Rightarrow> int list \<Rightarrow> int list" where
  "shrink_step req availableWidth totalRequired i ws =
     (let shrunk = (req i * availableWidth) sdiv totalRequired;
          minWidth = (if i = 4 \<or> i = 5 then 5 else 8)
      in ws[i := max shrunk minWidth])"

definition some_left :: "int list \<times> int \<Rightarrow> bool" where
  "some_left = (\<lambda>(ws, left). left > 0)"

text \<open>
  \<open>calculateColumnWidths\<close>.  The result \<open>ColumnWidths widths\<close> is addressed through
  the nine pointers of \<open>widthArray\<close> only, so it is a list of nine widths; it is not
  initialised, so its first contents \<open>widths\<close> are an argument.  \<open>focusedCol\<close> and
  \<open>allPending\<close> are the members \<open>focusedColumn\<close> and \<open>data.allPendingJobs\<close>.
  \<open>defaultWidths\<close> is never read.  A terminal is at most a few thousand columns
  wide, so no \<open>int\<close> overflows.
\<close>

definition calculateColumnWidths ::
  "int \<Rightarrow> Job list \<Rightarrow> int list \<Rightarrow> int \<Rightarrow> nat \<Rightarrow> int list \<Rightarrow> Job list \<Rightarrow> bool \<Rightarrow> int list" where
  "calculateColumnWidths focusedCol allPending widths terminalCols numColumns defaultWidths js isPendingView =
     (let req = (\<lambda>i. getMaxColumnWidth allPending i js isPendingView)
      in if 0 \<le> focusedCol \<and> focusedCol < int numColumns then
           let f = nat focusedCol;
               availableWidth = terminalCols - (int numColumns - 1) - 2;
               focusedNeededWidth = req f + 2;
               focusedWidth = min focusedNeededWidth availableWidth;
               widths1 = widths[f := focusedWidth];
               remainingWidth = availableWidth - focusedWidth;
               numOtherColumns = int numColumns - 1;
               widthPerOtherColumn = remainingWidth sdiv numOtherColumns;
               widths2 = for_loop 0 numColumns (\<lambda>_. True) (cap_step req f widthPerOtherColumn) widths1;
               usedByOthers = for_loop 0 numColumns (\<lambda>_. True) (used_step f widths2) 0;
               leftover = remainingWidth - usedByOthers
           in if leftover > 0 then
                fst (for_loop 0 numColumns some_left (spread_step f)
                       (for_loop 0 numColumns some_left (grow_step req f) (widths2, leftover)))
              else widths2
         else
           let availableWidth = terminalCols - (int numColumns - 1) - 2;
               totalRequired = for_loop 0 numColumns (\<lambda>_. True) (\<lambda>i total. total + req i) 0
           in if totalRequired \<le> availableWidth then
                let extraSpace = availableWidth - totalRequired;
                    widths1 = for_loop 0 numColumns (\<lambda>_. True) (\<lambda>i ws. ws[i := req i]) widths
                in fst (for_loop 0 numColumns some_left even_step
                         (for_loop 0 numColumns some_left (share_step req totalRequired)
                            (widths1, extraSpace)))
              else
                for_loop 0 numColumns (\<lambda>_. True) (shrink_step req availableWidth totalRequired) widths)"

section \<open>Specification vocabulary\<close>

text \<open>
  The statements below speak about blobs in the specification's own terms:
  \<open>occurs_at s pat i\<close> says that the token \<open>pat\<close> occupies the positions
  \<open>i, \<dots>, i + length pat - 1\<close> of \<open>s\<close>; \<open>sanitize_spec\<close> keeps the bytes 32 to 126,
  turns a tab into one space and drops every other byte; \<open>value_spec\<close> cuts the text
  that follows a field's \<open>=\<close> at the next space, or if there is none at the next
  newline, or if there is none not at all.
\<close>

definition occurs_at :: "string \<Rightarrow> string \<Rightarrow> nat \<Rightarrow> bool" where
  "occurs_at s pat i \<longleftrightarrow> i + length pat \<le> length s \<and> take (length pat) (drop i s) = pat"

definition sanitize_spec :: "string \<Rightarrow> string" where
  "sanitize_spec s =
     concat (map (\<lambda>c. if (32::nat) \<le> of_char c \<and> of_char c \<le> (126::nat) then [c]
                       else if c = CHR 0x09 then [CHR '' ''] else []) s)"

definition value_spec :: "string \<Rightarrow> string" where
  "value_spec rest =
     (if CHR '' '' \<in> set rest then takeWhile (\<lambda>c. c \<noteq> CHR '' '') rest
      else if CHR 0x0A \<in> set rest then takeWhile (\<lambda>c. c \<noteq> CHR 0x0A) rest
      else rest)"

text \<open>
  \<open>first_from P lo i\<close>: \<open>i\<close> is the first position at or after \<open>lo\<close> that
  satisfies \<open>P\<close>.  \<open>count_spec rest\<close> is the GPU count read from the text after an
  \<open>=\<close>: the text up to the next space, comma or newline (or the end), parsed as an
  integer, with 0 for text that does not parse.
\<close>

definition first_from :: "(nat \<Rightarrow> bool) \<Rightarrow> nat \<Rightarrow> nat \<Rightarrow> bool" where
  "first_from P lo i \<longleftrightarrow> lo \<le> i \<and> P i \<and> (\<forall>j. lo \<le> j \<and> j < i \<longrightarrow> \<not> P j)"

definition count_spec :: "string \<Rightarrow> int" where
  "count_spec rest =
     (case stoi (takeWhile (\<lambda>c. c \<notin> {CHR '' '', CHR '','', CHR 0x0A}) rest) of
        Inr v \<Rightarrow> v
      | Inl _ \<Rightarrow> 0)"

text \<open>
  \<open>counts_ok\<close>: the two counters agree with the records collected so far.
\<close>

definition counts_ok :: "SlurmData \<Rightarrow> bool" where
  "counts_ok d \<longleftrightarrow>
     runningJobs d = int (length (filter (\<lambda>job. state job = ''RUNNING'') (jobs d)))
     \<and> pendingJobs d = int (length (filter (\<lambda>job. state job = ''PENDING'') (jobs d)))"

text \<open>The sum of \<open>g\<close> over the columns below \<open>n\<close> other than \<open>f\<close>.\<close>

definition others_sum :: "nat \<Rightarrow> nat \<Rightarrow> (nat \<Rightarrow> int) \<Rightarrow> int" where
  "others_sum n f g = (\<Sum>i\<in>{..<n} - {f}. g i)"

text \<open>What the two distribution loops of the default mode keep.\<close>

definition budget_kept :: "nat \<Rightarrow> nat \<Rightarrow> int \<Rightarrow> int list \<times> int \<Rightarrow> bool" where
  "budget_kept n len totalReq t \<longleftrightarrow>
     length (fst t) = len \<and> 0 \<le> snd t \<and> (\<Sum>i<n. fst t ! i) + snd t = totalReq"


section \<open>A sample cluster\<close>

text \<open>
  A scheduler with three jobs of user \<open>alice\<close> (one running, one pending, one that
  vanishes between enumeration and lookup) and three pending jobs in the global
  queue, one of them with priority 0.  It answers every command the same way each
  time, so its world is \<open>unit\<close>.
\<close>

definition sample_exec :: "unit execCommand" where
  "sample_exec w cmd =
     (if cmd = ''squeue -u alice -h -o '' @ [CHR 0x22] @ ''%i'' @ [CHR 0x22]
        then [CHR ''1'', CHR ''0'', CHR ''1'', CHR 0x0A, CHR ''1'', CHR ''0'', CHR ''2'', CHR 0x0A,
              CHR ''1'', CHR ''0'', CHR ''3'', CHR 0x0A]
      else if cmd = ''squeue -h -t PD -o '' @ [CHR 0x22] @ ''%i'' @ [CHR 0x22]
        then ''102 200 201''
      else if cmd = ''scontrol show job 101 2>/dev/null''
        then ''JobId=101 JobName=train Account=ml JobState=RUNNING Priority=50 AllocTRES=cpu=4,mem=16G,gres/gpu:v100=4''
      else if cmd = ''scontrol show job 102 2>/dev/null''
        then ''JobId=102 JobName=eval Account=ml JobState=PENDING Priority=70 ReqTRES=cpu=2,gres/gpu=1''
      else if cmd = ''scontrol show job 200 2>/dev/null''
        then ''JobId=200 JobName=big Account=hpc JobState=PENDING Priority=90''
      else if cmd = ''scontrol show job 201 2>/dev/null''
        then ''JobId=201 JobName=held Account=hpc JobState=PENDING Priority=0''
      else [], w)"

definition sample_data :: SlurmData where
  "sample_data = \<lparr> username = ''alice'', jobs = [], allPendingJobs = [], totalJobs = 0,
                    runningJobs = 0, pendingJobs = 0, gpuTypeCount = Map.empty,
                    gpuTypeRequested = Map.empty \<rparr>"

definition sample_ui :: SlurmTopUI where
  "sample_ui = \<lparr> currentView = PENDING, scrollOffset = 5, maxRows = 20,
                  data = snd (fetchSlurmData sample_exec () sample_data),
                  running = True, focusedColumn = 3 \<rparr>"


section \<open>The string operations meet their library contracts\<close>

lemma occurs_at_Cons: "occurs_at (c # cs) pat (Suc i) = occurs_at cs pat i"
  by (simp add: occurs_at_def)

lemma occurs_at_0: "occurs_at cs pat 0 \<longleftrightarrow> take (length pat) cs = pat"
  by (auto simp: occurs_at_def) (metis length_take min.cobounded1)

lemma search_str_None: "search_str pat cs = None \<longleftrightarrow> (\<forall>i. \<not> occurs_at cs pat i)"
proof (induction cs)
  case Nil
  show ?case by (auto simp: occurs_at_def)
next
  case (Cons c cs)
  show ?case
  proof (cases "take (length pat) (c # cs) = pat")
    case True
    then have "occurs_at (c # cs) pat 0" by (simp only: occurs_at_0)
    with True show ?thesis by auto
  next
    case False
    then have n0: "\<not> occurs_at (c # cs) pat 0" by (simp only: occurs_at_0) simp
    have "(\<forall>i. \<not> occurs_at (c # cs) pat i) \<longleftrightarrow> (\<forall>i. \<not> occurs_at cs pat i)"
    proof
      assume a: "\<forall>i. \<not> occurs_at (c # cs) pat i"
      show "\<forall>i. \<not> occurs_at cs pat i"
      proof
        fix i from a have "\<not> occurs_at (c # cs) pat (Suc i)" by blast
        then show "\<not> occurs_at cs pat i" by (simp add: occurs_at_Cons)
      qed
    next
      assume a: "\<forall>i. \<not> occurs_at cs pat i"
      show "\<forall>i. \<not> occurs_at (c # cs) pat i"
      proof
        fix i show "\<not> occurs_at (c # cs) pat i"
          using a n0 by (cases i) (simp_all add: occurs_at_Cons)
      qed
    qed
    with False Cons.IH show ?thesis by simp
  qed
qed

lemma search_str_Some:
  "search_str pat cs = Some i \<Longrightarrow> occurs_at cs pat i \<and> (\<forall>j<i. \<not> occurs_at cs pat j)"
proof (induction cs arbitrary: i)
  case Nil
  then show ?case by (auto simp: occurs_at_def split: if_splits)
next
  case (Cons c cs)
  show ?case
  proof (cases "take (length pat) (c # cs) = pat")
    case True
    with Cons.prems have "i = 0" by simp
    with True show ?thesis by (simp add: occurs_at_0)
  next
    case False
    then have n0: "\<not> occurs_at (c # cs) pat 0" by (simp only: occurs_at_0) simp
    from False Cons.prems obtain k where k: "search_str pat cs = Some k" "i = Suc k"
      by auto
    from Cons.IH [OF k(1)] have ih: "occurs_at cs pat k" "\<forall>j<k. \<not> occurs_at cs pat j"
      by blast+
    have "\<forall>j<Suc k. \<not> occurs_at (c # cs) pat j"
    proof (intro allI impI)
      fix j assume "j < Suc k"
      then show "\<not> occurs_at (c # cs) pat j"
        using n0 ih(2) by (cases j) (simp_all add: occurs_at_Cons)
    qed
    with ih(1) k(2) show ?thesis by (simp add: occurs_at_Cons)
  qed
qed

lemma occurs_at_drop:
  "pos \<le> length s \<Longrightarrow> occurs_at (drop pos s) pat i \<longleftrightarrow> occurs_at s pat (pos + i)"
  by (auto simp: occurs_at_def add.commute)

lemma find_str_None:
  "find_str s pat pos = None \<longleftrightarrow> (\<forall>i\<ge>pos. \<not> occurs_at s pat i)"
proof (cases "length s < pos")
  case True
  then show ?thesis by (auto simp: find_str_def occurs_at_def)
next
  case False
  have "(\<forall>i. \<not> occurs_at s pat (pos + i)) \<longleftrightarrow> (\<forall>i\<ge>pos. \<not> occurs_at s pat i)"
    by (metis le_add1 le_Suc_ex)
  with False show ?thesis
    by (simp add: find_str_def search_str_None occurs_at_drop)
qed

lemma find_str_Some:
  assumes "find_str s pat pos = Some i"
  shows "pos \<le> i" and "occurs_at s pat i" and "\<forall>j. pos \<le> j \<and> j < i \<longrightarrow> \<not> occurs_at s pat j"
proof -
  from assms obtain k where k: "search_str pat (drop pos s) = Some k" "i = pos + k"
    by (auto simp: find_str_def split: if_splits)
  from assms have le: "pos \<le> length s"
    by (auto simp: find_str_def split: if_splits)
  from search_str_Some [OF k(1)]
  have a: "occurs_at s pat (pos + k)" and b: "\<forall>j<k. \<not> occurs_at s pat (pos + j)"
    by (simp_all add: occurs_at_drop [OF le])
  show "pos \<le> i" using k(2) by simp
  show "occurs_at s pat i" using a k(2) by simp
  show "\<forall>j. pos \<le> j \<and> j < i \<longrightarrow> \<not> occurs_at s pat j"
  proof (intro allI impI)
    fix j assume j: "pos \<le> j \<and> j < i"
    then have "j - pos < k" using k(2) by arith
    with b have "\<not> occurs_at s pat (pos + (j - pos))" by blast
    with j show "\<not> occurs_at s pat j" by simp
  qed
qed

lemma find_str_bound: "find_str s pat pos = Some i \<Longrightarrow> i + length pat \<le> length s"
  using find_str_Some(2) [of s pat pos i] by (simp add: occurs_at_def)

lemma find_str_first:
  assumes "occurs_at s pat p" and "\<forall>j<p. \<not> occurs_at s pat j"
  shows "find_str s pat 0 = Some p"
proof (cases "find_str s pat 0")
  case None
  with assms(1) show ?thesis by (simp add: find_str_None)
next
  case (Some i)
  from find_str_Some [OF Some] have i: "occurs_at s pat i" "\<forall>j. j < i \<longrightarrow> \<not> occurs_at s pat j"
    by simp_all
  have "i = p"
  proof (rule ccontr)
    assume "i \<noteq> p"
    then consider "i < p" | "p < i" by arith
    then show False using assms i by cases blast+
  qed
  with Some show ?thesis by simp
qed

lemma search_if_None: "search_if P cs = None \<longleftrightarrow> (\<forall>c\<in>set cs. \<not> P c)"
  by (induction cs) auto

lemma search_if_Some:
  "search_if P cs = Some i \<Longrightarrow> i < length cs \<and> P (cs ! i) \<and> take i cs = takeWhile (\<lambda>c. \<not> P c) cs"
proof (induction cs arbitrary: i)
  case Nil
  then show ?case by simp
next
  case (Cons c cs)
  then show ?case by (cases "P c") auto
qed

lemma find_chr_bound: "find_chr s ch pos = Some e \<Longrightarrow> pos \<le> e \<and> e < length s"
  by (auto simp: find_chr_def split: if_splits dest!: search_if_Some)

lemma find_first_of_bound: "find_first_of s chars pos = Some e \<Longrightarrow> pos \<le> e \<and> e < length s"
  by (auto simp: find_first_of_def split: if_splits dest!: search_if_Some)

lemma substr_find_chr:
  assumes "find_chr s ch pos = Some e"
  shows "substr s pos (e - pos) = takeWhile (\<lambda>c. c \<noteq> ch) (drop pos s)"
    and "ch \<in> set (drop pos s)"
proof -
  from assms obtain k where k: "search_if (\<lambda>c. c = ch) (drop pos s) = Some k" "e = pos + k"
    by (auto simp: find_chr_def split: if_splits)
  from search_if_Some [OF k(1)]
  have a: "k < length (drop pos s)" "drop pos s ! k = ch"
          "take k (drop pos s) = takeWhile (\<lambda>c. c \<noteq> ch) (drop pos s)"
    by simp_all
  show "substr s pos (e - pos) = takeWhile (\<lambda>c. c \<noteq> ch) (drop pos s)"
    using a(3) k(2) by (simp add: substr_def)
  show "ch \<in> set (drop pos s)"
    using a(1,2) nth_mem by blast
qed

lemma find_chr_None:
  "pos \<le> length s \<Longrightarrow> find_chr s ch pos = None \<longleftrightarrow> ch \<notin> set (drop pos s)"
  by (auto simp: find_chr_def search_if_None)

lemma stripControlChars_sanitize: "stripControlChars s = sanitize_spec s"
  by (induction s) (simp_all add: sanitize_spec_def)

text \<open>
  Claim C7 (Field Extractor).  When \<open>fieldName=\<close> occurs nowhere in the blob the
  result is empty.  Otherwise, with \<open>p\<close> the first position where \<open>fieldName=\<close>
  occurs, the result is the text after that \<open>=\<close> up to the next space (or, without a
  space, up to the next newline; or, without either, up to the end of the blob),
  sanitized byte by byte.
\<close>

theorem extractField_spec:
  "(\<not> (\<exists>i. occurs_at blob (fieldName @ ''='') i) \<longrightarrow> extractField blob fieldName = [])
   \<and> (\<forall>p. occurs_at blob (fieldName @ ''='') p
            \<and> (\<forall>j<p. \<not> occurs_at blob (fieldName @ ''='') j)
        \<longrightarrow> extractField blob fieldName
              = sanitize_spec (value_spec (drop (p + length fieldName + 1) blob)))"
proof (intro conjI impI allI)
  assume "\<not> (\<exists>i. occurs_at blob (fieldName @ ''='') i)"
  then have "find_str blob (fieldName @ ''='') 0 = None"
    by (simp add: find_str_None)
  then show "extractField blob fieldName = []"
    by (simp add: extractField_def)
next
  fix p
  assume h: "occurs_at blob (fieldName @ ''='') p
               \<and> (\<forall>j<p. \<not> occurs_at blob (fieldName @ ''='') j)"
  then have f: "find_str blob (fieldName @ ''='') 0 = Some p"
    by (simp add: find_str_first)
  define pos where "pos = p + (length fieldName + 1)"
  have bound: "pos \<le> length blob"
    using find_str_bound [OF f] by (simp add: pos_def)
  define rest where "rest = drop pos blob"
  have ef: "extractField blob fieldName
              = stripControlChars (substr blob pos
                  ((case find_chr blob CHR '' '' pos of
                      Some e \<Rightarrow> e
                    | None \<Rightarrow> (case find_chr blob CHR 0x0A pos of
                                 Some e \<Rightarrow> e
                               | None \<Rightarrow> length blob)) - pos))"
    using f unfolding extractField_def pos_def by (simp add: Let_def cong: option.case_cong)
  have "extractField blob fieldName = stripControlChars (value_spec rest)"
  proof (cases "find_chr blob CHR '' '' pos")
    case (Some e)
    from substr_find_chr [OF Some] show ?thesis
      using Some by (simp add: ef value_spec_def rest_def)
  next
    case None
    then have nosp: "CHR '' '' \<notin> set rest"
      using bound by (simp add: find_chr_None rest_def)
    show ?thesis
    proof (cases "find_chr blob CHR 0x0A pos")
      case (Some e)
      from substr_find_chr [OF Some] show ?thesis
        using None Some nosp by (simp add: ef value_spec_def rest_def)
    next
      case None2: None
      then have nonl: "CHR 0x0A \<notin> set rest"
        using bound by (simp add: find_chr_None rest_def)
      show ?thesis
        using None None2 nosp nonl bound
        by (simp add: ef value_spec_def rest_def substr_def)
    qed
  qed
  then show "extractField blob fieldName
              = sanitize_spec (value_spec (drop (p + length fieldName + 1) blob))"
    by (simp add: stripControlChars_sanitize rest_def pos_def)
qed

text \<open>The two extraction examples of the specification, obtained from the theorem.\<close>

theorem extractField_spec_witness:
  "extractField ''JobState=RUNNING Reason=None'' ''JobState'' = ''RUNNING''
   \<and> extractField ''X=1'' ''Missing'' = []"
proof -
  have a: "occurs_at ''JobState=RUNNING Reason=None'' (''JobState'' @ ''='') 0
            \<and> (\<forall>j<(0::nat). \<not> occurs_at ''JobState=RUNNING Reason=None'' (''JobState'' @ ''='') j)"
    by (simp add: occurs_at_def)
  have b: "\<not> (\<exists>i. occurs_at ''X=1'' (''Missing'' @ ''='') i)"
    by (simp add: occurs_at_def)
  have c: "sanitize_spec (value_spec (drop (0 + length ''JobState'' + 1) ''JobState=RUNNING Reason=None''))
            = ''RUNNING''"
    by (simp add: sanitize_spec_def value_spec_def)
  from extractField_spec [of "''JobState=RUNNING Reason=None''" "''JobState''"] a c
  have "extractField ''JobState=RUNNING Reason=None'' ''JobState'' = ''RUNNING''"
    by (metis (no_types, lifting))
  moreover from extractField_spec [of "''X=1''" "''Missing''"] b
  have "extractField ''X=1'' ''Missing'' = []" by blast
  ultimately show ?thesis by simp
qed

section \<open>The GPU resource extractor\<close>

lemma first_from_unique: "first_from P lo i \<Longrightarrow> first_from P lo k \<Longrightarrow> i = k"
  unfolding first_from_def by (metis linorder_neqE_nat)

lemma find_str_first_from:
  "find_str s pat lo = Some i \<longleftrightarrow> first_from (occurs_at s pat) lo i"
proof
  assume "find_str s pat lo = Some i"
  from find_str_Some [OF this] show "first_from (occurs_at s pat) lo i"
    by (simp add: first_from_def)
next
  assume a: "first_from (occurs_at s pat) lo i"
  show "find_str s pat lo = Some i"
  proof (cases "find_str s pat lo")
    case None
    with a show ?thesis by (auto simp: find_str_None first_from_def)
  next
    case (Some k)
    from find_str_Some [OF Some] have "first_from (occurs_at s pat) lo k"
      by (simp add: first_from_def)
    with a Some show ?thesis by (simp add: first_from_unique)
  qed
qed

lemma search_if_Some_before:
  "search_if P cs = Some i \<Longrightarrow> \<forall>j<i. \<not> P (cs ! j)"
proof (induction cs arbitrary: i)
  case Nil
  then show ?case by simp
next
  case (Cons c cs)
  show ?case
  proof (cases "P c")
    case True
    with Cons.prems show ?thesis by simp
  next
    case False
    with Cons.prems obtain k where k: "search_if P cs = Some k" "i = Suc k" by auto
    from Cons.IH [OF k(1)] False k(2) show ?thesis
      by (auto simp: nth_Cons split: nat.splits)
  qed
qed

lemma find_chr_Some_first:
  assumes "find_chr s ch lo = Some e"
  shows "first_from (\<lambda>i. i < length s \<and> s ! i = ch) lo e"
proof -
  from assms obtain k
    where k: "search_if (\<lambda>c. c = ch) (drop lo s) = Some k" "e = lo + k" "lo \<le> length s"
    by (auto simp: find_chr_def split: if_splits)
  from search_if_Some [OF k(1)] have b: "k < length s - lo" "s ! (lo + k) = ch"
    using k(3) by simp_all
  from search_if_Some_before [OF k(1)] have c: "\<forall>j<k. s ! (lo + j) \<noteq> ch"
    using k(3) b(1) by simp
  have "\<forall>j. lo \<le> j \<and> j < e \<longrightarrow> \<not> (j < length s \<and> s ! j = ch)"
  proof (intro allI impI)
    fix j assume j: "lo \<le> j \<and> j < e"
    then have "j - lo < k" using k(2) by arith
    with c have "s ! (lo + (j - lo)) \<noteq> ch" by blast
    with j show "\<not> (j < length s \<and> s ! j = ch)" by simp
  qed
  moreover have "lo + k < length s" using b(1) by arith
  ultimately show ?thesis
    using b(2) k(2) by (simp add: first_from_def)
qed

lemma find_chr_first_from:
  "find_chr s ch lo = Some e \<longleftrightarrow> first_from (\<lambda>i. i < length s \<and> s ! i = ch) lo e"
proof
  assume "find_chr s ch lo = Some e"
  then show "first_from (\<lambda>i. i < length s \<and> s ! i = ch) lo e"
    by (rule find_chr_Some_first)
next
  assume a: "first_from (\<lambda>i. i < length s \<and> s ! i = ch) lo e"
  then have e: "lo \<le> e" "e < length s" "s ! e = ch" by (simp_all add: first_from_def)
  have "drop lo s ! (e - lo) = ch" "e - lo < length (drop lo s)"
    using e by simp_all
  then have "ch \<in> set (drop lo s)"
    using nth_mem by blast
  then obtain k where k: "find_chr s ch lo = Some k"
    using e by (cases "find_chr s ch lo") (simp_all add: find_chr_None)
  from find_chr_Some_first [OF k] a k show "find_chr s ch lo = Some e"
    by (simp add: first_from_unique)
qed

lemma search_if_cut:
  "take (case search_if P cs of Some i \<Rightarrow> i | None \<Rightarrow> length cs) cs = takeWhile (\<lambda>c. \<not> P c) cs"
proof (cases "search_if P cs")
  case None
  then have "\<forall>c\<in>set cs. \<not> P c" by (simp add: search_if_None)
  then have tw: "takeWhile (\<lambda>c. \<not> P c) cs = cs" by simp
  show ?thesis by (subst tw) (simp add: None)
next
  case (Some i)
  with search_if_Some [OF Some] show ?thesis by simp
qed

lemma substr_find_first_of:
  assumes "pos \<le> length s"
  shows "substr s pos ((case find_first_of s chars pos of Some e \<Rightarrow> e | None \<Rightarrow> length s) - pos)
           = takeWhile (\<lambda>c. c \<notin> set chars) (drop pos s)"
proof -
  have "(case find_first_of s chars pos of Some e \<Rightarrow> e | None \<Rightarrow> length s) - pos
          = (case search_if (\<lambda>c. c \<in> set chars) (drop pos s) of Some i \<Rightarrow> i | None \<Rightarrow> length (drop pos s))"
    using assms by (simp add: find_first_of_def split: option.splits)
  then show ?thesis
    using search_if_cut [where P = "\<lambda>c. c \<in> set chars" and cs = "drop pos s"]
    by (simp add: substr_def)
qed

lemma count_after:
  assumes "pos \<le> length s"
  shows "(case stoi (substr s pos ((case find_first_of s [CHR '' '', CHR '','', CHR 0x0A] pos of
                                      Some e \<Rightarrow> e | None \<Rightarrow> length s) - pos)) of
            Inr v \<Rightarrow> v | Inl _ \<Rightarrow> 0) = count_spec (drop pos s)"
  by (simp add: substr_find_first_of [OF assms] count_spec_def)

lemma occurs_at_prefix:
  assumes "occurs_at s (a @ b) i"
  shows "occurs_at s a i"
proof -
  from assms have le: "i + (length a + length b) \<le> length s"
    and eq: "take (length a + length b) (drop i s) = a @ b"
    by (simp_all add: occurs_at_def)
  have "take (length a) (take (length a + length b) (drop i s)) = take (length a) (a @ b)"
    by (simp only: eq)
  then have "take (length a) (drop i s) = a" by simp
  with le show ?thesis by (simp add: occurs_at_def)
qed

lemma extractGPUInfo_typed:
  assumes f1: "find_str blob (fieldName @ ''='') 0 = Some p"
      and f2: "find_str blob ''gres/gpu:'' p = Some t"
      and f3: "find_chr blob CHR ''='' (t + 9) = Some e"
  shows "extractGPUInfo blob fieldName
           = ((case stoi (substr blob (e + 1)
                 ((case find_first_of blob [CHR '' '', CHR '','', CHR 0x0A] (e + 1) of
                     Some k \<Rightarrow> k | None \<Rightarrow> length blob) - (e + 1))) of
                 Inr v \<Rightarrow> v | Inl _ \<Rightarrow> 0),
              stripControlChars (substr blob (t + 9) (e - (t + 9))))"
  unfolding extractGPUInfo_def by (simp only: f1 f2 f3 option.case Let_def)

text \<open>
  Claim C4 (typed-first precedence), as amended.  Let \<open>p\<close> be the first position of
  \<open>fieldName=\<close>, \<open>t\<close> the first position at or after \<open>p\<close> of the typed token
  \<open>gres/gpu:\<close>, and \<open>e\<close> the first position of an \<open>=\<close> at or after the end of that
  token.  Then the extractor returns the typed result: the count parsed after that
  \<open>=\<close> and the sanitized text between the colon and that \<open>=\<close>, whether or not the
  untyped token \<open>gres/gpu=\<close> occurs as well.  The hypothesis on \<open>e\<close> is what the
  claim leaves out: the source takes the typed path only \<open>if (typeEnd != npos)\<close>.
  It holds whenever an untyped token follows the typed one
  (lemma \<open>typed_then_untyped_has_eq\<close>).
\<close>

theorem extractGPUInfo_typed_first:
  assumes field: "first_from (occurs_at blob (fieldName @ ''='')) 0 p"
      and typed: "first_from (occurs_at blob ''gres/gpu:'') p t"
      and eq: "first_from (\<lambda>i. i < length blob \<and> blob ! i = CHR ''='') (t + 9) e"
  shows "extractGPUInfo blob fieldName
           = (count_spec (drop (e + 1) blob),
              sanitize_spec (take (e - (t + 9)) (drop (t + 9) blob)))"
proof -
  have f1: "find_str blob (fieldName @ ''='') 0 = Some p"
    using field by (simp add: find_str_first_from)
  have f2: "find_str blob ''gres/gpu:'' p = Some t"
    using typed by (simp add: find_str_first_from)
  have f3: "find_chr blob CHR ''='' (t + 9) = Some e"
    using eq by (simp add: find_chr_first_from)
  from find_chr_bound [OF f3] have le: "e + 1 \<le> length blob" by simp
  show ?thesis
    unfolding extractGPUInfo_typed [OF f1 f2 f3] count_after [OF le] stripControlChars_sanitize
    by (simp only: substr_def)
qed

lemma typed_then_untyped_has_eq:
  assumes "occurs_at blob ''gres/gpu='' u" and "t < u"
  shows "\<exists>e. first_from (\<lambda>i. i < length blob \<and> blob ! i = CHR ''='') (t + 9) e"
proof -
  have len: "length ''gres/gpu='' = 9" by simp
  from assms(1) [unfolded occurs_at_def len]
  have le: "u + 9 \<le> length blob" and tk: "take 9 (drop u blob) = ''gres/gpu=''"
    by blast+
  have "take 9 (drop u blob) ! 8 = blob ! (u + 8)"
    using le by simp
  moreover have "''gres/gpu='' ! 8 = CHR ''=''" by simp
  ultimately have at: "blob ! (u + 8) = CHR ''=''"
    by (simp only: tk)
  have "drop (t + 9) blob ! (u + 8 - (t + 9)) = CHR ''=''"
       "u + 8 - (t + 9) < length (drop (t + 9) blob)"
    using at le assms(2) by (simp_all add: add.commute)
  then have "CHR ''='' \<in> set (drop (t + 9) blob)"
    using nth_mem by metis
  moreover have "t + 9 \<le> length blob" using le assms(2) by simp
  ultimately obtain e where "find_chr blob CHR ''='' (t + 9) = Some e"
    by (cases "find_chr blob CHR ''='' (t + 9)") (simp_all add: find_chr_None)
  then show ?thesis
    using find_chr_Some_first by blast
qed

text \<open>The specification's example for C4, obtained from the theorem.\<close>

theorem extractGPUInfo_typed_first_witness:
  "extractGPUInfo ''AllocTRES=cpu=4,gres/gpu:a100=2,gres/gpu=99'' ''AllocTRES'' = (2, ''a100'')"
proof -
  let ?b = "''AllocTRES=cpu=4,gres/gpu:a100=2,gres/gpu=99''"
  have "find_str ?b (''AllocTRES'' @ ''='') 0 = Some 0" by code_simp
  then have h1: "first_from (occurs_at ?b (''AllocTRES'' @ ''='')) 0 0"
    by (simp only: find_str_first_from)
  have "find_str ?b ''gres/gpu:'' 0 = Some 16" by code_simp
  then have h2: "first_from (occurs_at ?b ''gres/gpu:'') 0 16"
    by (simp only: find_str_first_from)
  have "find_chr ?b CHR ''='' (16 + 9) = Some 29" by code_simp
  then have h3: "first_from (\<lambda>i. i < length ?b \<and> ?b ! i = CHR ''='') (16 + 9) 29"
    by (simp only: find_chr_first_from)
  have v: "(count_spec (drop (29 + 1) ?b), sanitize_spec (take (29 - (16 + 9)) (drop (16 + 9) ?b)))
             = (2, ''a100'')"
    by code_simp
  from extractGPUInfo_typed_first [OF h1 h2 h3] v show ?thesis by (simp only:)
qed

text \<open>
  Claim C4 as stated fails: in this blob the field, the typed token and the untyped
  token all occur, both tokens after the field position, but no \<open>=\<close> follows the
  typed token, and the extractor returns the untyped result.
\<close>

theorem extractGPUInfo_typed_first_counterexample:
  "occurs_at ''AllocTRES=gres/gpu=99,gres/gpu:a100'' ''AllocTRES='' 0
   \<and> occurs_at ''AllocTRES=gres/gpu=99,gres/gpu:a100'' ''gres/gpu:'' 22
   \<and> occurs_at ''AllocTRES=gres/gpu=99,gres/gpu:a100'' ''gres/gpu='' 10
   \<and> extractGPUInfo ''AllocTRES=gres/gpu=99,gres/gpu:a100'' ''AllocTRES'' = (99, ''generic'')"
  by code_simp

section \<open>The job record parser\<close>

lemma extractGPUInfo_no_token:
  assumes "\<forall>p i. first_from (occurs_at blob (fieldName @ ''='')) 0 p \<and> p \<le> i
                 \<longrightarrow> \<not> occurs_at blob ''gres/gpu'' i"
  shows "extractGPUInfo blob fieldName = (0, ''N/A'')"
proof (cases "find_str blob (fieldName @ ''='') 0")
  case None
  then show ?thesis by (simp add: extractGPUInfo_def)
next
  case (Some p)
  then have "first_from (occurs_at blob (fieldName @ ''='')) 0 p"
    by (simp only: find_str_first_from)
  with assms have no: "\<forall>i\<ge>p. \<not> occurs_at blob ''gres/gpu'' i" by blast
  have "\<forall>i\<ge>p. \<not> occurs_at blob (''gres/gpu'' @ '':'') i"
    using no occurs_at_prefix by blast
  then have t: "find_str blob ''gres/gpu:'' p = None"
    by (simp add: find_str_None)
  have "\<forall>i\<ge>p. \<not> occurs_at blob (''gres/gpu'' @ ''='') i"
    using no occurs_at_prefix by blast
  then have u: "find_str blob ''gres/gpu='' p = None"
    by (simp add: find_str_None)
  show ?thesis
    unfolding extractGPUInfo_def by (simp only: Some t u option.case Let_def)
qed

text \<open>
  Claim C3 (resource field choice), as amended.  For the record \<open>j\<close> parsed from a
  blob, whose state is the extracted \<open>JobState\<close>:
  when the state is \<open>RUNNING\<close>, the GPU count and type are those the extractor
  returns for \<open>AllocTRES\<close> alone, and they are \<open>(0, N/A)\<close> whenever no \<open>gres/gpu\<close>
  token lies at or after the first \<open>AllocTRES=\<close> (the extractor scans from the field
  position to the end of the blob, not to the end of the field);
  for any other state, they are those returned for \<open>ReqTRES\<close>, unless that count is
  0, and then those returned for \<open>AllocTRES\<close>.
\<close>

theorem parseJobDetails_gpu_source:
  assumes "j = parseJobDetails jid blob"
  shows "state j = extractField blob ''JobState''
     \<and> (state j = ''RUNNING'' \<longrightarrow>
          (gpuCount j, gpuType j) = extractGPUInfo blob ''AllocTRES''
          \<and> ((\<forall>p i. first_from (occurs_at blob (''AllocTRES'' @ ''='')) 0 p \<and> p \<le> i
                      \<longrightarrow> \<not> occurs_at blob ''gres/gpu'' i)
               \<longrightarrow> gpuCount j = 0 \<and> gpuType j = ''N/A''))
     \<and> (state j \<noteq> ''RUNNING'' \<longrightarrow>
          (gpuCount j, gpuType j)
            = (if fst (extractGPUInfo blob ''ReqTRES'') = 0
               then extractGPUInfo blob ''AllocTRES''
               else extractGPUInfo blob ''ReqTRES''))"
proof -
  have st: "state j = extractField blob ''JobState''"
    using assms by (simp add: parseJobDetails_def Let_def)
  have run: "(gpuCount j, gpuType j) = extractGPUInfo blob ''AllocTRES''"
    if "state j = ''RUNNING''"
    using that st assms by (simp add: parseJobDetails_def Let_def)
  have other: "(gpuCount j, gpuType j)
            = (if fst (extractGPUInfo blob ''ReqTRES'') = 0
               then extractGPUInfo blob ''AllocTRES''
               else extractGPUInfo blob ''ReqTRES'')"
    if "state j \<noteq> ''RUNNING''"
    using that st assms by (simp add: parseJobDetails_def Let_def)
  have none: "gpuCount j = 0 \<and> gpuType j = ''N/A''"
    if "state j = ''RUNNING''"
      and "\<forall>p i. first_from (occurs_at blob (''AllocTRES'' @ ''='')) 0 p \<and> p \<le> i
                      \<longrightarrow> \<not> occurs_at blob ''gres/gpu'' i"
    using run [OF that(1)] extractGPUInfo_no_token [OF that(2)] by simp
  from st run other none show ?thesis by blast
qed

text \<open>
  Two records for C3: a running job whose only GPU entry precedes \<open>AllocTRES=\<close> gets
  count 0, and a pending job with a GPU entry only under \<open>AllocTRES\<close> gets the
  \<open>AllocTRES\<close> value through the fallback.
\<close>

theorem parseJobDetails_gpu_source_witness:
  "gpuCount (parseJobDetails ''7'' ''JobState=RUNNING ReqTRES=cpu=4,gres/gpu:a100=2 AllocTRES=cpu=4'') = 0
   \<and> (gpuCount (parseJobDetails ''8'' ''JobState=PENDING AllocTRES=cpu=4,gres/gpu=3 ReqTRES=cpu=4''),
       gpuType (parseJobDetails ''8'' ''JobState=PENDING AllocTRES=cpu=4,gres/gpu=3 ReqTRES=cpu=4''))
      = extractGPUInfo ''JobState=PENDING AllocTRES=cpu=4,gres/gpu=3 ReqTRES=cpu=4'' ''AllocTRES''"
proof -
  let ?r = "''JobState=RUNNING ReqTRES=cpu=4,gres/gpu:a100=2 AllocTRES=cpu=4''"
  let ?p = "''JobState=PENDING AllocTRES=cpu=4,gres/gpu=3 ReqTRES=cpu=4''"
  have sr: "extractField ?r ''JobState'' = ''RUNNING''" by code_simp
  have f: "find_str ?r (''AllocTRES'' @ ''='') 0 = Some 47" by code_simp
  have g: "find_str ?r ''gres/gpu'' 47 = None" by code_simp
  have hyp: "\<forall>p i. first_from (occurs_at ?r (''AllocTRES'' @ ''='')) 0 p \<and> p \<le> i
                  \<longrightarrow> \<not> occurs_at ?r ''gres/gpu'' i"
  proof (intro allI impI)
    fix p i
    assume a: "first_from (occurs_at ?r (''AllocTRES'' @ ''='')) 0 p \<and> p \<le> i"
    then have "find_str ?r (''AllocTRES'' @ ''='') 0 = Some p"
      by (simp only: find_str_first_from)
    with f have "p = 47" by simp
    with a g show "\<not> occurs_at ?r ''gres/gpu'' i"
      by (simp only: find_str_None) blast
  qed
  have sp: "extractField ?p ''JobState'' \<noteq> ''RUNNING''" by code_simp
  have rq: "fst (extractGPUInfo ?p ''ReqTRES'') = 0" by code_simp
  note R = parseJobDetails_gpu_source [OF refl, of "''7''" ?r]
  from R [THEN conjunct1] sr have "state (parseJobDetails ''7'' ?r) = ''RUNNING''"
    by (simp only:)
  with R [THEN conjunct2, THEN conjunct1] hyp
  have r0: "gpuCount (parseJobDetails ''7'' ?r) = 0" by blast
  note P = parseJobDetails_gpu_source [OF refl, of "''8''" ?p]
  from P [THEN conjunct1] sp have "state (parseJobDetails ''8'' ?p) \<noteq> ''RUNNING''"
    by (simp only: not_False_eq_True)
  with P [THEN conjunct2, THEN conjunct2]
  have "(gpuCount (parseJobDetails ''8'' ?p), gpuType (parseJobDetails ''8'' ?p))
          = (if fst (extractGPUInfo ?p ''ReqTRES'') = 0
             then extractGPUInfo ?p ''AllocTRES''
             else extractGPUInfo ?p ''ReqTRES'')"
    by (rule mp)
  then have "(gpuCount (parseJobDetails ''8'' ?p), gpuType (parseJobDetails ''8'' ?p))
          = extractGPUInfo ?p ''AllocTRES''"
    by (simp only: rq simp_thms if_True)
  with r0 show ?thesis by (rule conjI)
qed

text \<open>
  Claim C3 as stated fails: this running job has a GPU entry under \<open>ReqTRES\<close> only
  (the \<open>AllocTRES\<close> value is \<open>cpu=4\<close>), but \<open>ReqTRES\<close> follows \<open>AllocTRES\<close> in the
  blob, and the parsed count is 2.
\<close>

theorem parseJobDetails_gpu_source_counterexample:
  "extractField ''JobState=RUNNING AllocTRES=cpu=4 ReqTRES=cpu=4,gres/gpu:a100=2'' ''JobState'' = ''RUNNING''
   \<and> extractField ''JobState=RUNNING AllocTRES=cpu=4 ReqTRES=cpu=4,gres/gpu:a100=2'' ''AllocTRES'' = ''cpu=4''
   \<and> extractField ''JobState=RUNNING AllocTRES=cpu=4 ReqTRES=cpu=4,gres/gpu:a100=2'' ''ReqTRES''
        = ''cpu=4,gres/gpu:a100=2''
   \<and> gpuCount (parseJobDetails ''7'' ''JobState=RUNNING AllocTRES=cpu=4 ReqTRES=cpu=4,gres/gpu:a100=2'') = 2"
  by code_simp

section \<open>Sorting\<close>

lemma mset_sort_insert: "mset (sort_insert lt x xs) = add_mset x (mset xs)"
  by (induction xs) simp_all

lemma mset_std_sort: "mset (std_sort lt xs) = mset xs"
  by (induction xs) (simp_all add: mset_sort_insert)

lemma set_std_sort: "set (std_sort lt xs) = set xs"
  using mset_std_sort [of lt xs] by (metis set_mset_mset)

lemma set_sort_insert: "set (sort_insert lt x xs) = insert x (set xs)"
  using mset_sort_insert [of lt x xs] by (metis set_mset_mset set_mset_add_mset_insert)

lemma sorted_sort_insert:
  fixes k :: "'a \<Rightarrow> int"
  assumes "sorted_wrt (\<lambda>a b. k b \<le> k a) xs"
  shows "sorted_wrt (\<lambda>a b. k b \<le> k a) (sort_insert (\<lambda>a b. k b < k a) x xs)"
  using assms
proof (induction xs)
  case Nil
  show ?case by simp
next
  case (Cons y ys)
  show ?case
  proof (cases "k x < k y")
    case True
    have "\<forall>z\<in>set (sort_insert (\<lambda>a b. k b < k a) x ys). k z \<le> k y"
      using Cons.prems True by (auto simp: set_sort_insert)
    with True Cons show ?thesis by simp
  next
    case False
    with Cons.prems show ?thesis by auto
  qed
qed

lemma sorted_std_sort:
  fixes k :: "'a \<Rightarrow> int"
  shows "sorted_wrt (\<lambda>a b. k b \<le> k a) (std_sort (\<lambda>a b. k b < k a) xs)"
  by (induction xs) (simp_all add: sorted_sort_insert)

section \<open>The snapshot after a refresh\<close>

lemma counts_ok_count_job: "counts_ok d \<Longrightarrow> counts_ok (count_job job d)"
  by (simp add: counts_ok_def count_job_def Let_def)

lemma counts_ok_fetch_owned: "counts_ok d \<Longrightarrow> counts_ok (snd (fetch_owned exec ids w d))"
proof (induction ids arbitrary: w d)
  case Nil
  then show ?case by simp
next
  case (Cons jid rest)
  then show ?case
    by (simp add: counts_ok_count_job split: prod.splits)
qed

lemma fetch_pending_keeps:
  "jobs (snd (fetch_pending exec ids w d)) = jobs d
   \<and> totalJobs (snd (fetch_pending exec ids w d)) = totalJobs d
   \<and> runningJobs (snd (fetch_pending exec ids w d)) = runningJobs d
   \<and> pendingJobs (snd (fetch_pending exec ids w d)) = pendingJobs d"
proof (induction ids arbitrary: w d)
  case Nil
  show ?case by simp
next
  case (Cons jid rest)
  show ?case
    by (simp add: Cons.IH Let_def split: prod.splits)
qed

lemma fetch_pending_positive:
  "\<forall>job\<in>set (allPendingJobs d). 0 < priority job
   \<Longrightarrow> \<forall>job\<in>set (allPendingJobs (snd (fetch_pending exec ids w d))). 0 < priority job"
proof (induction ids arbitrary: w d)
  case Nil
  then show ?case by simp
next
  case (Cons jid rest)
  show ?case
  proof (cases "exec w (''scontrol show job '' @ jid @ '' 2>/dev/null'')")
    case (Pair out w')
    show ?thesis
    proof (cases "out \<noteq> [] \<and> 0 < priority (parseJobDetails jid out)")
      case True
      have "\<forall>job\<in>set (allPendingJobs
               (d\<lparr>allPendingJobs := allPendingJobs d @ [parseJobDetails jid out]\<rparr>)).
              0 < priority job"
        using Cons.prems True by simp
      from Cons.IH [OF this] True Pair show ?thesis by (simp add: Let_def)
    next
      case False
      with Cons.IH [OF Cons.prems] Pair show ?thesis by (auto simp: Let_def)
    qed
  qed
qed

lemma fetch_owned_allPending:
  "allPendingJobs (snd (fetch_owned exec ids w d)) = allPendingJobs d"
proof (induction ids arbitrary: w d)
  case Nil
  show ?case by simp
next
  case (Cons jid rest)
  show ?case
    by (simp add: Cons.IH count_job_def Let_def split: prod.splits)
qed

lemma disjoint_filters_length:
  assumes "\<And>x. \<not> (P x \<and> Q x)"
  shows "length (filter P xs) + length (filter Q xs) \<le> length xs"
  using assms by (induction xs) auto

lemma fetchSlurmData_fields:
  obtains w1 w2 w3 ids pids d1 where
    "d1 = snd (fetch_owned exec ids w1 (clear d))"
    "snd (fetchSlurmData exec w d)
       = (let d3 = snd (fetch_pending exec pids w3 (d1\<lparr> totalJobs := int (length (jobs d1)) \<rparr>))
          in d3\<lparr> allPendingJobs := std_sort (\<lambda>a b. priority a > priority b) (allPendingJobs d3) \<rparr>)"
proof -
  obtain out1 w1 where e1: "exec w (''squeue -u '' @ username (clear d) @ '' -h -o '' @ [CHR 0x22] @ ''%i'' @ [CHR 0x22]) = (out1, w1)"
    by (cases "exec w (''squeue -u '' @ username (clear d) @ '' -h -o '' @ [CHR 0x22] @ ''%i'' @ [CHR 0x22])")
  obtain w2 d1 where e2: "fetch_owned exec (words_from [] out1) w1 (clear d) = (w2, d1)"
    by (cases "fetch_owned exec (words_from [] out1) w1 (clear d)")
  obtain out2 w3 where e3: "exec w2 (''squeue -h -t PD -o '' @ [CHR 0x22] @ ''%i'' @ [CHR 0x22]) = (out2, w3)"
    by (cases "exec w2 (''squeue -h -t PD -o '' @ [CHR 0x22] @ ''%i'' @ [CHR 0x22])")
  have "snd (fetchSlurmData exec w d)
       = (let d3 = snd (fetch_pending exec (words_from [] out2) w3 (d1\<lparr> totalJobs := int (length (jobs d1)) \<rparr>))
          in d3\<lparr> allPendingJobs := std_sort (\<lambda>a b. priority a > priority b) (allPendingJobs d3) \<rparr>)"
    unfolding fetchSlurmData_def Let_def e1 e2 e3 prod.case
    by (simp add: split_beta)
  moreover have "d1 = snd (fetch_owned exec (words_from [] out1) w1 (clear d))"
    by (simp add: e2)
  ultimately show ?thesis using that by blast
qed

text \<open>
  Claim C5 (aggregation invariant).  After a refresh, whatever the commands print:
  \<open>totalJobs\<close> is the length of \<open>jobs\<close>; \<open>runningJobs + pendingJobs\<close> is at most
  \<open>totalJobs\<close>; \<open>runningJobs\<close> is the number of records whose state is exactly
  \<open>RUNNING\<close> and \<open>pendingJobs\<close> the number of those whose state is exactly
  \<open>PENDING\<close>.  An identifier whose blob is empty adds no record.
\<close>

theorem refresh_counts:
  "totalJobs (snd (fetchSlurmData exec w d)) = int (length (jobs (snd (fetchSlurmData exec w d))))
   \<and> runningJobs (snd (fetchSlurmData exec w d)) + pendingJobs (snd (fetchSlurmData exec w d))
       \<le> totalJobs (snd (fetchSlurmData exec w d))
   \<and> runningJobs (snd (fetchSlurmData exec w d))
       = int (length (filter (\<lambda>job. state job = ''RUNNING'') (jobs (snd (fetchSlurmData exec w d)))))
   \<and> pendingJobs (snd (fetchSlurmData exec w d))
       = int (length (filter (\<lambda>job. state job = ''PENDING'') (jobs (snd (fetchSlurmData exec w d)))))"
proof -
  obtain w1 w3 ids pids d1 where
    d1: "d1 = snd (fetch_owned exec ids w1 (clear d))" and
    r: "snd (fetchSlurmData exec w d)
       = (let d3 = snd (fetch_pending exec pids w3 (d1\<lparr> totalJobs := int (length (jobs d1)) \<rparr>))
          in d3\<lparr> allPendingJobs := std_sort (\<lambda>a b. priority a > priority b) (allPendingJobs d3) \<rparr>)"
    by (rule fetchSlurmData_fields)
  have "counts_ok (clear d)" by (simp add: counts_ok_def clear_def)
  then have ok: "counts_ok d1" unfolding d1 by (rule counts_ok_fetch_owned)
  define d2 where "d2 = d1\<lparr> totalJobs := int (length (jobs d1)) \<rparr>"
  note k = fetch_pending_keeps [of exec pids w3 d2]
  have j: "jobs (snd (fetchSlurmData exec w d)) = jobs d1"
    and t: "totalJobs (snd (fetchSlurmData exec w d)) = int (length (jobs d1))"
    and rn: "runningJobs (snd (fetchSlurmData exec w d)) = runningJobs d1"
    and pn: "pendingJobs (snd (fetchSlurmData exec w d)) = pendingJobs d1"
    using k by (simp_all add: r d2_def [symmetric] Let_def) (simp_all add: d2_def)
  have "length (filter (\<lambda>job. state job = ''RUNNING'') (jobs d1))
          + length (filter (\<lambda>job. state job = ''PENDING'') (jobs d1)) \<le> length (jobs d1)"
    by (rule disjoint_filters_length) simp
  then have "runningJobs d1 + pendingJobs d1 \<le> int (length (jobs d1))"
    using ok by (simp add: counts_ok_def)
  with ok show ?thesis
    by (simp add: j t rn pn counts_ok_def)
qed

text \<open>
  Claim C6 (global ranking).  After a refresh every member of \<open>allPendingJobs\<close> has a
  positive priority, and each member's priority is at least that of its successor.
\<close>

theorem refresh_ranking:
  "(\<forall>job\<in>set (allPendingJobs (snd (fetchSlurmData exec w d))). 0 < priority job)
   \<and> (\<forall>i. Suc i < length (allPendingJobs (snd (fetchSlurmData exec w d))) \<longrightarrow>
          priority (allPendingJobs (snd (fetchSlurmData exec w d)) ! Suc i)
            \<le> priority (allPendingJobs (snd (fetchSlurmData exec w d)) ! i))"
proof -
  obtain w1 w3 ids pids d1 where
    r: "snd (fetchSlurmData exec w d)
       = (let d3 = snd (fetch_pending exec pids w3 (d1\<lparr> totalJobs := int (length (jobs d1)) \<rparr>))
          in d3\<lparr> allPendingJobs := std_sort (\<lambda>a b. priority a > priority b) (allPendingJobs d3) \<rparr>)"
    and d1: "d1 = snd (fetch_owned exec ids w1 (clear d))"
    by (rule fetchSlurmData_fields)
  define d2 where "d2 = d1\<lparr> totalJobs := int (length (jobs d1)) \<rparr>"
  define d3 where "d3 = snd (fetch_pending exec pids w3 d2)"
  have ap: "allPendingJobs (snd (fetchSlurmData exec w d))
              = std_sort (\<lambda>a b. priority b < priority a) (allPendingJobs d3)"
    by (simp add: r d3_def d2_def Let_def)
  have "allPendingJobs d2 = []"
    by (simp add: d2_def d1 fetch_owned_allPending clear_def)
  then have "\<forall>job\<in>set (allPendingJobs d2). 0 < priority job" by simp
  then have pos: "\<forall>job\<in>set (allPendingJobs d3). 0 < priority job"
    unfolding d3_def by (rule fetch_pending_positive)
  have srt: "sorted_wrt (\<lambda>a b. priority b \<le> priority a)
               (allPendingJobs (snd (fetchSlurmData exec w d)))"
    unfolding ap by (rule sorted_std_sort)
  have "\<forall>i. Suc i < length (allPendingJobs (snd (fetchSlurmData exec w d))) \<longrightarrow>
          priority (allPendingJobs (snd (fetchSlurmData exec w d)) ! Suc i)
            \<le> priority (allPendingJobs (snd (fetchSlurmData exec w d)) ! i)"
    using srt by (simp add: sorted_wrt_iff_nth_less)
  moreover have "\<forall>job\<in>set (allPendingJobs (snd (fetchSlurmData exec w d))). 0 < priority job"
    using pos by (simp add: ap set_std_sort)
  ultimately show ?thesis by blast
qed

lemma sample_refresh_states:
  "map state (jobs (snd (fetchSlurmData sample_exec () sample_data))) = [''RUNNING'', ''PENDING'']"
  by code_simp

lemma sample_refresh_priorities:
  "map priority (allPendingJobs (snd (fetchSlurmData sample_exec () sample_data))) = [90, 70]"
  by code_simp

lemma length_filter_state:
  "length (filter (\<lambda>job. state job = s) js) = length (filter (\<lambda>x. x = s) (map state js))"
  by (induction js) simp_all

text \<open>The counts of the sample cluster, whose third job has vanished.\<close>

theorem refresh_counts_witness:
  "length (jobs (snd (fetchSlurmData sample_exec () sample_data))) = 2
   \<and> totalJobs (snd (fetchSlurmData sample_exec () sample_data)) = 2
   \<and> runningJobs (snd (fetchSlurmData sample_exec () sample_data)) = 1
   \<and> pendingJobs (snd (fetchSlurmData sample_exec () sample_data)) = 1"
proof -
  let ?d = "snd (fetchSlurmData sample_exec () sample_data)"
  have "length (map state (jobs ?d)) = 2"
    by (simp only: sample_refresh_states) simp
  then have n: "length (jobs ?d) = 2" by simp
  have r: "length (filter (\<lambda>job. state job = ''RUNNING'') (jobs ?d)) = 1"
    by (simp only: length_filter_state sample_refresh_states) simp
  have p: "length (filter (\<lambda>job. state job = ''PENDING'') (jobs ?d)) = 1"
    by (simp only: length_filter_state sample_refresh_states) simp
  from refresh_counts [of sample_exec "()" sample_data] show ?thesis
    by (simp only: n r p) simp
qed

text \<open>The ranking of the sample cluster: two members, the job of priority 0 left out.\<close>

theorem refresh_ranking_witness:
  "length (allPendingJobs (snd (fetchSlurmData sample_exec () sample_data))) = 2
   \<and> 0 < priority (allPendingJobs (snd (fetchSlurmData sample_exec () sample_data)) ! 0)
   \<and> 0 < priority (allPendingJobs (snd (fetchSlurmData sample_exec () sample_data)) ! Suc 0)
   \<and> priority (allPendingJobs (snd (fetchSlurmData sample_exec () sample_data)) ! Suc 0)
        \<le> priority (allPendingJobs (snd (fetchSlurmData sample_exec () sample_data)) ! 0)"
proof -
  let ?d = "snd (fetchSlurmData sample_exec () sample_data)"
  have "length (map priority (allPendingJobs ?d)) = 2"
    by (simp only: sample_refresh_priorities) simp
  then have n: "length (allPendingJobs ?d) = 2" by simp
  then have m: "allPendingJobs ?d ! 0 \<in> set (allPendingJobs ?d)"
               "allPendingJobs ?d ! Suc 0 \<in> set (allPendingJobs ?d)"
    by simp_all
  from n have "Suc 0 < length (allPendingJobs ?d)" by simp
  with refresh_ranking [of sample_exec "()" sample_data] n m show ?thesis
    by blast
qed

section \<open>Input handling\<close>

text \<open>
  Claim C8 (refresh and view selection).  In every state, the refresh key (\<open>r\<close> or
  \<open>R\<close>) sets \<open>scrollOffset\<close> to 0, keeps \<open>focusedColumn\<close> and the current view, and
  replaces the snapshot by the result of \<open>fetchSlurmData\<close>; a view key (\<open>1\<close> to
  \<open>4\<close>) selects its view and sets \<open>scrollOffset\<close> to 0 and \<open>focusedColumn\<close> to \<open>-1\<close>.
\<close>

theorem handleInput_refresh_and_views:
  "((ch = key CHR ''r'' \<or> ch = key CHR ''R'') \<longrightarrow>
      scrollOffset (snd (snd (handleInput exec ch w ui))) = 0
      \<and> focusedColumn (snd (snd (handleInput exec ch w ui))) = focusedColumn ui
      \<and> currentView (snd (snd (handleInput exec ch w ui))) = currentView ui
      \<and> data (snd (snd (handleInput exec ch w ui))) = snd (fetchSlurmData exec w (data ui)))
   \<and> (\<forall>v. (ch, v) \<in> {(key CHR ''1'', OVERVIEW), (key CHR ''2'', RUNNING),
                         (key CHR ''3'', PENDING), (key CHR ''4'', ALL_VIEW)} \<longrightarrow>
      scrollOffset (snd (snd (handleInput exec ch w ui))) = 0
      \<and> focusedColumn (snd (snd (handleInput exec ch w ui))) = - 1
      \<and> currentView (snd (snd (handleInput exec ch w ui))) = v)"
proof (intro conjI impI allI)
  assume r: "ch = key CHR ''r'' \<or> ch = key CHR ''R''"
  obtain w1 d where f: "fetchSlurmData exec w (data ui) = (w1, d)"
    by (cases "fetchSlurmData exec w (data ui)")
  have "handleInput exec (key CHR ''r'') w ui = (True, w1, ui\<lparr> data := d, scrollOffset := 0 \<rparr>)"
    by (simp add: handleInput_def key_def ERR_def f)
  moreover
  have "handleInput exec (key CHR ''R'') w ui = (True, w1, ui\<lparr> data := d, scrollOffset := 0 \<rparr>)"
    by (simp add: handleInput_def key_def ERR_def f)
  ultimately
  have h: "handleInput exec ch w ui = (True, w1, ui\<lparr> data := d, scrollOffset := 0 \<rparr>)"
    using r by blast
  show "scrollOffset (snd (snd (handleInput exec ch w ui))) = 0"
    and "focusedColumn (snd (snd (handleInput exec ch w ui))) = focusedColumn ui"
    and "currentView (snd (snd (handleInput exec ch w ui))) = currentView ui"
    and "data (snd (snd (handleInput exec ch w ui))) = snd (fetchSlurmData exec w (data ui))"
    by (simp_all add: h f)
next
  fix v
  assume "(ch, v) \<in> {(key CHR ''1'', OVERVIEW), (key CHR ''2'', RUNNING),
                         (key CHR ''3'', PENDING), (key CHR ''4'', ALL_VIEW)}"
  then consider "ch = key CHR ''1''" "v = OVERVIEW" | "ch = key CHR ''2''" "v = RUNNING"
    | "ch = key CHR ''3''" "v = PENDING" | "ch = key CHR ''4''" "v = ALL_VIEW"
    by blast
  then have h: "handleInput exec ch w ui = (True, w, select_view v ui)"
    by cases (simp_all add: handleInput_def key_def ERR_def select_view_def)
  show "scrollOffset (snd (snd (handleInput exec ch w ui))) = 0"
    and "focusedColumn (snd (snd (handleInput exec ch w ui))) = - 1"
    and "currentView (snd (snd (handleInput exec ch w ui))) = v"
    by (simp_all add: h select_view_def)
qed

text \<open>A refresh and a view selection in the pending view with column 3 focused.\<close>

theorem handleInput_refresh_and_views_witness:
  "scrollOffset (snd (snd (handleInput sample_exec (key CHR ''r'') () sample_ui))) = 0
   \<and> focusedColumn (snd (snd (handleInput sample_exec (key CHR ''r'') () sample_ui))) = 3
   \<and> currentView (snd (snd (handleInput sample_exec (key CHR ''r'') () sample_ui))) = PENDING
   \<and> scrollOffset (snd (snd (handleInput sample_exec (key CHR ''2'') () sample_ui))) = 0
   \<and> focusedColumn (snd (snd (handleInput sample_exec (key CHR ''2'') () sample_ui))) = - 1
   \<and> currentView (snd (snd (handleInput sample_exec (key CHR ''2'') () sample_ui))) = RUNNING"
proof -
  have a: "focusedColumn sample_ui = 3" "currentView sample_ui = PENDING"
    by (simp_all add: sample_ui_def)
  have b: "(key CHR ''2'', RUNNING) \<in> {(key CHR ''1'', OVERVIEW), (key CHR ''2'', RUNNING),
                         (key CHR ''3'', PENDING), (key CHR ''4'', ALL_VIEW)}"
    by simp
  from handleInput_refresh_and_views [of "key CHR ''r''" sample_exec "()" sample_ui]
  have "scrollOffset (snd (snd (handleInput sample_exec (key CHR ''r'') () sample_ui))) = 0
      \<and> focusedColumn (snd (snd (handleInput sample_exec (key CHR ''r'') () sample_ui))) = 3
      \<and> currentView (snd (snd (handleInput sample_exec (key CHR ''r'') () sample_ui))) = PENDING"
    by (simp only: a simp_thms)
  moreover
  from handleInput_refresh_and_views [of "key CHR ''2''" sample_exec "()" sample_ui] b
  have "scrollOffset (snd (snd (handleInput sample_exec (key CHR ''2'') () sample_ui))) = 0
      \<and> focusedColumn (snd (snd (handleInput sample_exec (key CHR ''2'') () sample_ui))) = - 1
      \<and> currentView (snd (snd (handleInput sample_exec (key CHR ''2'') () sample_ui))) = RUNNING"
    by blast
  ultimately show ?thesis by blast
qed

section \<open>The rows of the pending view\<close>

lemma table_rows_slice:
  "table_rows js maxR i k = take (nat (maxR - k)) (drop i js)"
proof (induction js maxR i k rule: table_rows.induct)
  case (1 js maxR i k)
  show ?case
  proof (cases "i < length js \<and> k < maxR")
    case True
    then have "nat (maxR - k) = Suc (nat (maxR - (k + 1)))" by arith
    moreover have "drop i js = js ! i # drop (Suc i) js"
      using True by (simp add: Cons_nth_drop_Suc)
    ultimately show ?thesis
      using True "1.IH" by (simp add: table_rows.simps [of js maxR i k])
  next
    case False
    then show ?thesis by (auto simp: table_rows.simps [of js maxR i k])
  qed
qed

text \<open>
  Claim C10 (pending view).  The list the pending view works on holds exactly the
  snapshot's job records whose state is \<open>PENDING\<close> (as a multiset) and is in
  descending order of priority; the rows printed are the slice of that sorted list
  that starts at \<open>scrollOffset\<close> and has at most \<open>rows - 6\<close> members.
\<close>

theorem pending_view_rows:
  "mset (pendingViewJobs (data ui))
     = mset (filter (\<lambda>job. state job = ''PENDING'') (jobs (data ui)))
   \<and> sorted_wrt (\<lambda>a b. priority b \<le> priority a) (pendingViewJobs (data ui))
   \<and> (0 \<le> scrollOffset ui \<longrightarrow>
        drawPendingView_rows ui rows
          = take (nat (rows - 6)) (drop (nat (scrollOffset ui)) (pendingViewJobs (data ui))))"
  by (simp add: pendingViewJobs_def mset_std_sort sorted_std_sort drawPendingView_rows_def
        table_rows_slice del: mset_filter)

text \<open>The pending view of the sample cluster on a terminal of 24 lines.\<close>

theorem pending_view_rows_witness:
  "map priority (pendingViewJobs (data sample_ui)) = [70]
   \<and> drawPendingView_rows (sample_ui\<lparr> scrollOffset := 0 \<rparr>) 24
       = take 18 (pendingViewJobs (data sample_ui))"
proof -
  have a: "map priority (pendingViewJobs (data sample_ui)) = [70]"
    by code_simp
  have "0 \<le> scrollOffset (sample_ui\<lparr> scrollOffset := 0 \<rparr>)" by simp
  with pending_view_rows [of "sample_ui\<lparr> scrollOffset := 0 \<rparr>" 24]
  have "drawPendingView_rows (sample_ui\<lparr> scrollOffset := 0 \<rparr>) 24
       = take 18 (pendingViewJobs (data sample_ui))"
    by simp
  with a show ?thesis by blast
qed

section \<open>Loops\<close>

lemma for_loop_rule:
  assumes "P i s" and "i \<le> n"
    and "\<And>j t. i \<le> j \<Longrightarrow> j < n \<Longrightarrow> cond t \<Longrightarrow> P j t \<Longrightarrow> P (Suc j) (body j t)"
  shows "\<exists>k. i \<le> k \<and> k \<le> n \<and> P k (for_loop i n cond body s)
             \<and> (k = n \<or> \<not> cond (for_loop i n cond body s))"
  using assms
proof (induction i n cond body s rule: for_loop.induct)
  case (1 i n cond body s)
  show ?case
  proof (cases "i < n \<and> cond s")
    case True
    have "P (Suc i) (body i s)"
      using "1.prems"(3) [of i s] True "1.prems"(1) by simp
    moreover have "Suc i \<le> n" using True by simp
    moreover have "\<And>j t. Suc i \<le> j \<Longrightarrow> j < n \<Longrightarrow> cond t \<Longrightarrow> P j t \<Longrightarrow> P (Suc j) (body j t)"
      using "1.prems"(3) by simp
    ultimately obtain k where k: "Suc i \<le> k" "k \<le> n"
      "P k (for_loop (Suc i) n cond body (body i s))"
      "k = n \<or> \<not> cond (for_loop (Suc i) n cond body (body i s))"
      using "1.IH" [OF True] by blast
    have "for_loop i n cond body s = for_loop (Suc i) n cond body (body i s)"
      using True by (simp add: for_loop.simps [of i n cond body s])
    with k show ?thesis by (intro exI [of _ k]) simp
  next
    case False
    then have e: "for_loop i n cond body s = s"
      by (subst for_loop.simps) auto
    from False "1.prems"(2) have "i = n \<or> \<not> cond s" by auto
    with "1.prems"(1,2) e show ?thesis by (intro exI [of _ i]) simp
  qed
qed

lemma for_loop_all:
  assumes "P 0 s"
    and "\<And>j t. j < n \<Longrightarrow> P j t \<Longrightarrow> P (Suc j) (body j t)"
  shows "P n (for_loop 0 n (\<lambda>_. True) body s)"
  using for_loop_rule [where P = P and i = 0 and n = n and cond = "\<lambda>_. True" and body = body and s = s]
    assms by auto

section \<open>Sums over the columns\<close>

lemma others_sum_0: "others_sum 0 f g = 0"
  by (simp add: others_sum_def)

lemma others_sum_Suc:
  "others_sum (Suc j) f g = (if j \<noteq> f then others_sum j f g + g j else others_sum j f g)"
proof (cases "j = f")
  case True
  then have "{..<Suc j} - {f} = {..<j} - {f}" by auto
  with True show ?thesis by (simp add: others_sum_def)
next
  case False
  then have "{..<Suc j} - {f} = insert j ({..<j} - {f})" by auto
  with False show ?thesis by (simp add: others_sum_def)
qed

lemma others_sum_cong:
  "(\<And>i. i < n \<Longrightarrow> i \<noteq> f \<Longrightarrow> g i = h i) \<Longrightarrow> others_sum n f g = others_sum n f h"
  unfolding others_sum_def by (rule sum.cong) auto

lemma others_sum_mono:
  "(\<And>i. i < n \<Longrightarrow> i \<noteq> f \<Longrightarrow> g i \<le> h i) \<Longrightarrow> others_sum n f g \<le> others_sum n f h"
  unfolding others_sum_def by (rule sum_mono) auto

lemma others_sum_update:
  assumes "j < n" and "j \<noteq> f" and "j < length ws"
  shows "others_sum n f ((!) (ws[j := v])) = others_sum n f ((!) ws) - ws ! j + v"
  using assms(1)
proof (induction n)
  case 0
  then show ?case by simp
next
  case (Suc n)
  show ?case
  proof (cases "j < n")
    case True
    then have "ws[j := v] ! n = ws ! n" by simp
    with Suc.IH [OF True] show ?thesis
      by (cases "n = f") (simp_all add: others_sum_Suc)
  next
    case False
    with Suc.prems have jn: "j = n" by simp
    have "others_sum n f ((!) (ws[j := v])) = others_sum n f ((!) ws)"
      by (rule others_sum_cong) (simp add: jn)
    then show ?thesis
      using assms(2,3) jn by (simp add: others_sum_Suc)
  qed
qed

lemma others_sum_update_focus:
  "others_sum n f ((!) (ws[f := v])) = others_sum n f ((!) ws)"
  by (rule others_sum_cong) simp

lemma others_sum_card:
  assumes "f < n"
  shows "others_sum n f (\<lambda>i. c) = (int n - 1) * c"
proof -
  have "card ({..<n} - {f}) = n - 1" using assms by simp
  then have "others_sum n f (\<lambda>i. c) = int (n - 1) * c"
    by (simp add: others_sum_def)
  with assms show ?thesis by (simp add: of_nat_diff)
qed

lemma total_split:
  assumes "f < n"
  shows "(\<Sum>i<n. g i) = g f + others_sum n f g"
  unfolding others_sum_def using assms by (simp add: sum.remove [of _ f])

lemma sum_list_take_nth:
  assumes "n \<le> length ws"
  shows "sum_list (take n ws) = (\<Sum>i<n. ws ! i)"
proof -
  have "sum_list (take n ws) = (\<Sum>i = 0..<length (take n ws). take n ws ! i)"
    by (rule sum_list_sum_nth)
  also have "\<dots> = (\<Sum>i = 0..<n. ws ! i)"
    using assms by (intro sum.cong) simp_all
  finally show ?thesis by (simp add: atLeast0LessThan)
qed

section \<open>Required widths\<close>

lemma foldl_max_ge:
  fixes a :: int
  shows "a \<le> foldl (\<lambda>mw job. max mw (g job)) a js"
proof (induction js arbitrary: a)
  case Nil
  show ?case by simp
next
  case (Cons j js)
  have "max a (g j) \<le> foldl (\<lambda>mw job. max mw (g job)) (max a (g j)) js"
    by (rule Cons.IH)
  then show ?case by simp
qed

lemma getMaxColumnWidth_bounds:
  "1 \<le> getMaxColumnWidth allPending i js isPendingView
   \<and> getMaxColumnWidth allPending i js isPendingView \<le> 50"
proof -
  define header where "header = (if isPendingView then pendingHeaders ! i else runningHeaders ! i)"
  have "int (length header)
          \<le> foldl (\<lambda>mw job. max mw (column_len allPending i job isPendingView))
               (int (length header)) js"
    by (rule foldl_max_ge)
  then have "0 \<le> foldl (\<lambda>mw job. max mw (column_len allPending i job isPendingView))
               (int (length header)) js"
    by simp
  then show ?thesis
    by (simp add: getMaxColumnWidth_def Let_def header_def)
qed

section \<open>The loops of the focused mode\<close>

lemma cap_loop:
  fixes req :: "nat \<Rightarrow> int" and f n :: nat and per :: int and ws1 :: "int list"
  defines "ws2 \<equiv> for_loop 0 n (\<lambda>_. True) (cap_step req f per) ws1"
  assumes len: "n \<le> length ws1"
  shows "length ws2 = length ws1"
    and "\<forall>i<n. i \<noteq> f \<longrightarrow> ws2 ! i = min (req i) per"
    and "ws2 ! f = ws1 ! f"
proof -
  define P where "P = (\<lambda>j ws. length ws = length ws1
                          \<and> (\<forall>i<j. i \<noteq> f \<longrightarrow> ws ! i = min (req i) per)
                          \<and> ws ! f = ws1 ! f)"
  have "P n ws2"
    unfolding ws2_def
  proof (rule for_loop_all)
    show "P 0 ws1" by (simp add: P_def)
  next
    fix j t
    assume j: "j < n" and p: "P j t"
    show "P (Suc j) (cap_step req f per j t)"
    proof (cases "j = f")
      case True
      with p show ?thesis by (auto simp: P_def cap_step_def less_Suc_eq)
    next
      case False
      with p j len show ?thesis
        by (auto simp: P_def cap_step_def less_Suc_eq nth_list_update)
    qed
  qed
  then show "length ws2 = length ws1"
    and "\<forall>i<n. i \<noteq> f \<longrightarrow> ws2 ! i = min (req i) per"
    and "ws2 ! f = ws1 ! f"
    by (simp_all add: P_def)
qed

lemma used_loop:
  "for_loop 0 n (\<lambda>_. True) (used_step f ws) 0 = others_sum n f ((!) ws)"
proof -
  define P where "P = (\<lambda>j (u::int). u = others_sum j f ((!) ws))"
  have "P n (for_loop 0 n (\<lambda>_. True) (used_step f ws) 0)"
  proof (rule for_loop_all)
    show "P 0 0" by (simp add: P_def others_sum_0)
  next
    fix j t
    assume "j < n" and "P j t"
    then show "P (Suc j) (used_step f ws j t)"
      by (simp add: P_def used_step_def others_sum_Suc)
  qed
  then show ?thesis by (simp add: P_def)
qed

lemma total_loop:
  "for_loop 0 n (\<lambda>_. True) (\<lambda>i total. total + req i) (0::int) = (\<Sum>i<n. req i)"
proof -
  define P where "P = (\<lambda>j (u::int). u = (\<Sum>i<j. req i))"
  have "P n (for_loop 0 n (\<lambda>_. True) (\<lambda>i total. total + req i) 0)"
  proof (rule for_loop_all)
    show "P 0 0" by (simp add: P_def)
  next
    fix j t
    assume "j < n" and "P j t"
    then show "P (Suc j) (t + req j)"
      by (simp add: P_def)
  qed
  then show ?thesis by (simp add: P_def)
qed

lemma grow_loop:
  fixes req :: "nat \<Rightarrow> int"
  assumes len: "n \<le> length ws0" and l0: "0 \<le> l0"
    and le: "\<forall>i<n. i \<noteq> f \<longrightarrow> ws0 ! i \<le> req i"
  shows "\<exists>ws l. for_loop 0 n some_left (grow_step req f) (ws0, l0) = (ws, l)
           \<and> length ws = length ws0 \<and> 0 \<le> l
           \<and> others_sum n f ((!) ws) + l = others_sum n f ((!) ws0) + l0
           \<and> ws ! f = ws0 ! f
           \<and> (\<forall>i<n. i \<noteq> f \<longrightarrow> ws ! i \<le> req i)
           \<and> (0 < l \<longrightarrow> (\<forall>i<n. i \<noteq> f \<longrightarrow> ws ! i = req i))"
proof -
  define P where "P = (\<lambda>j (t :: int list \<times> int).
     length (fst t) = length ws0 \<and> 0 \<le> snd t
     \<and> others_sum n f ((!) (fst t)) + snd t = others_sum n f ((!) ws0) + l0
     \<and> fst t ! f = ws0 ! f
     \<and> (\<forall>i<n. i \<noteq> f \<longrightarrow> fst t ! i \<le> req i)
     \<and> (0 < snd t \<longrightarrow> (\<forall>i<j. i \<noteq> f \<longrightarrow> fst t ! i = req i)))"
  have init: "P 0 (ws0, l0)"
    using l0 le by (simp add: P_def)
  have step: "P (Suc j) (grow_step req f j t)"
    if j: "j < n" and c: "some_left t" and p: "P j t" for j t
  proof -
    obtain ws l where t: "t = (ws, l)" by (cases t)
    from c t have lpos: "0 < l" by (simp add: some_left_def)
    from p t have a: "length ws = length ws0" "others_sum n f ((!) ws) + l = others_sum n f ((!) ws0) + l0"
      "ws ! f = ws0 ! f" "\<forall>i<n. i \<noteq> f \<longrightarrow> ws ! i \<le> req i"
      "\<forall>i<j. i \<noteq> f \<longrightarrow> ws ! i = req i"
      using lpos by (simp_all add: P_def)
    show ?thesis
    proof (cases "j \<noteq> f \<and> 0 < req j - ws ! j")
      case False
      then have g: "grow_step req f j t = (ws, l)"
        by (auto simp: grow_step_def t Let_def)
      have "j \<noteq> f \<longrightarrow> ws ! j = req j"
        using False a(4) j by force
      then have "\<forall>i<Suc j. i \<noteq> f \<longrightarrow> ws ! i = req i"
        using a(5) by (auto simp: less_Suc_eq)
      with a lpos show ?thesis by (simp add: P_def g)
    next
      case True
      define toAdd where "toAdd = min (req j - ws ! j) l"
      define ws' where "ws' = ws[j := ws ! j + toAdd]"
      from True have g: "grow_step req f j t = (ws', l - toAdd)"
        by (simp add: grow_step_def t Let_def toAdd_def ws'_def)
      have jl: "j < length ws" using j len a(1) by simp
      have ta: "0 < toAdd" "toAdd \<le> l" "toAdd \<le> req j - ws ! j"
        using True lpos by (simp_all add: toAdd_def)
      have s: "others_sum n f ((!) ws') = others_sum n f ((!) ws) + toAdd"
        unfolding ws'_def using others_sum_update [of j n f ws "ws ! j + toAdd"] j True jl by simp
      have le': "\<forall>i<n. i \<noteq> f \<longrightarrow> ws' ! i \<le> req i"
        using a(4) ta(3) jl by (auto simp: ws'_def nth_list_update)
      have eq': "0 < l - toAdd \<longrightarrow> (\<forall>i<Suc j. i \<noteq> f \<longrightarrow> ws' ! i = req i)"
      proof
        assume "0 < l - toAdd"
        then have "toAdd = req j - ws ! j" by (simp add: toAdd_def min_def split: if_splits)
        then have "ws' ! j = req j" using jl by (simp add: ws'_def)
        moreover have "\<forall>i<j. i \<noteq> f \<longrightarrow> ws' ! i = req i"
          using a(5) by (simp add: ws'_def)
        ultimately show "\<forall>i<Suc j. i \<noteq> f \<longrightarrow> ws' ! i = req i"
          by (auto simp: less_Suc_eq)
      qed
      have "ws' ! f = ws0 ! f" using True a(3) by (simp add: ws'_def)
      moreover have "length ws' = length ws0" using a(1) by (simp add: ws'_def)
      moreover have "others_sum n f ((!) ws') + (l - toAdd) = others_sum n f ((!) ws0) + l0"
        using s a(2) by simp
      ultimately show ?thesis
        using ta le' eq' by (simp add: P_def g)
    qed
  qed
  from for_loop_rule [where P = P and i = 0 and n = n and cond = some_left
      and body = "grow_step req f" and s = "(ws0, l0)", OF init _ step]
  obtain k where k: "k \<le> n" "P k (for_loop 0 n some_left (grow_step req f) (ws0, l0))"
    "k = n \<or> \<not> some_left (for_loop 0 n some_left (grow_step req f) (ws0, l0))"
    by auto
  obtain ws l where r: "for_loop 0 n some_left (grow_step req f) (ws0, l0) = (ws, l)"
    by (cases "for_loop 0 n some_left (grow_step req f) (ws0, l0)")
  from k(3) r have "0 < l \<longrightarrow> k = n" by (auto simp: some_left_def)
  with k(2) r show ?thesis by (auto simp: P_def)
qed

lemma others_sum_ones_mono:
  "k \<le> n \<Longrightarrow> others_sum k f (\<lambda>i. 1) \<le> others_sum n f (\<lambda>i. 1)"
  unfolding others_sum_def by (rule sum_mono2) auto

lemma spread_loop:
  assumes len: "n \<le> length ws0" and l0: "0 \<le> l0" and f: "f < n"
  shows "\<exists>ws l. for_loop 0 n some_left (spread_step f) (ws0, l0) = (ws, l)
           \<and> length ws = length ws0
           \<and> others_sum n f ((!) ws) + l = others_sum n f ((!) ws0) + l0
           \<and> ws ! f = ws0 ! f
           \<and> l = max 0 (l0 - (int n - 1))"
proof -
  define P where "P = (\<lambda>j (t :: int list \<times> int).
     length (fst t) = length ws0 \<and> 0 \<le> snd t
     \<and> others_sum n f ((!) (fst t)) + snd t = others_sum n f ((!) ws0) + l0
     \<and> fst t ! f = ws0 ! f
     \<and> snd t = l0 - others_sum j f (\<lambda>i. 1))"
  have init: "P 0 (ws0, l0)"
    using l0 by (simp add: P_def others_sum_0)
  have step: "P (Suc j) (spread_step f j t)"
    if j: "j < n" and c: "some_left t" and p: "P j t" for j t
  proof -
    obtain ws l where t: "t = (ws, l)" by (cases t)
    from c t have lpos: "0 < l" by (simp add: some_left_def)
    from p t have a: "length ws = length ws0"
      "others_sum n f ((!) ws) + l = others_sum n f ((!) ws0) + l0"
      "ws ! f = ws0 ! f" "l = l0 - others_sum j f (\<lambda>i. 1)"
      by (simp_all add: P_def)
    show ?thesis
    proof (cases "j = f")
      case True
      with a lpos show ?thesis
        by (simp add: P_def spread_step_def t others_sum_Suc)
    next
      case False
      have jl: "j < length ws" using j len a(1) by simp
      have "others_sum n f ((!) (ws[j := ws ! j + 1])) = others_sum n f ((!) ws) + 1"
        using others_sum_update [of j n f ws "ws ! j + 1"] j False jl by simp
      with a lpos False show ?thesis
        by (simp add: P_def spread_step_def t others_sum_Suc)
    qed
  qed
  from for_loop_rule [where P = P and i = 0 and n = n and cond = some_left
      and body = "spread_step f" and s = "(ws0, l0)", OF init _ step]
  obtain k where k: "k \<le> n" "P k (for_loop 0 n some_left (spread_step f) (ws0, l0))"
    "k = n \<or> \<not> some_left (for_loop 0 n some_left (spread_step f) (ws0, l0))"
    by auto
  obtain ws l where r: "for_loop 0 n some_left (spread_step f) (ws0, l0) = (ws, l)"
    by (cases "for_loop 0 n some_left (spread_step f) (ws0, l0)")
  from k(2) r have a: "length ws = length ws0" "0 \<le> l"
      "others_sum n f ((!) ws) + l = others_sum n f ((!) ws0) + l0"
      "ws ! f = ws0 ! f" "l = l0 - others_sum k f (\<lambda>i. 1)"
    by (simp_all add: P_def)
  have full: "others_sum n f (\<lambda>i. 1) = int n - 1"
    using others_sum_card [OF f, of 1] by simp
  have "l = max 0 (l0 - (int n - 1))"
  proof (cases "k = n")
    case True
    with a(2,5) full show ?thesis by simp
  next
    case False
    with k(3) r have "l \<le> 0" by (simp add: some_left_def)
    with a(2) have "l = 0" by simp
    moreover have "others_sum k f (\<lambda>i. 1) \<le> int n - 1"
      using others_sum_ones_mono [OF k(1), of f] full by simp
    ultimately show ?thesis using a(5) by simp
  qed
  with a r show ?thesis by simp
qed

section \<open>The focused mode\<close>

lemma sdiv_nonneg:
  fixes a b :: int
  assumes "0 \<le> a" and "0 < b"
  shows "a sdiv b = a div b"
  using assms by (cases "a = 0") (simp_all add: signed_divide_int_def sgn_if)

lemma focused_branch:
  fixes focusedCol terminalCols :: int and numColumns :: nat
    and allPending js :: "Job list" and isPendingView :: bool and widths :: "int list"
  defines "req \<equiv> (\<lambda>i. getMaxColumnWidth allPending i js isPendingView)"
  defines "f \<equiv> nat focusedCol"
  defines "avail \<equiv> terminalCols - (int numColumns - 1) - 2"
  defines "fw \<equiv> min (req f + 2) avail"
  defines "ws2 \<equiv> for_loop 0 numColumns (\<lambda>_. True)
                     (cap_step req f ((avail - fw) sdiv (int numColumns - 1))) (widths[f := fw])"
  defines "leftover \<equiv> avail - fw - others_sum numColumns f ((!) ws2)"
  assumes "0 \<le> focusedCol" and "focusedCol < int numColumns"
  shows "calculateColumnWidths focusedCol allPending widths terminalCols numColumns dw js isPendingView
         = (if leftover > 0
            then fst (for_loop 0 numColumns some_left (spread_step f)
                       (for_loop 0 numColumns some_left (grow_step req f) (ws2, leftover)))
            else ws2)"
  using assms(7,8)
  unfolding calculateColumnWidths_def Let_def used_loop
    req_def f_def avail_def fw_def ws2_def leftover_def
  by simp

lemma focused_capped:
  fixes req :: "nat \<Rightarrow> int" and avail fw :: int and n f :: nat and widths :: "int list"
  defines "per \<equiv> (avail - fw) sdiv (int n - 1)"
  defines "ws2 \<equiv> for_loop 0 n (\<lambda>_. True) (cap_step req f per) (widths[f := fw])"
  assumes f: "f < n" and n: "2 \<le> n" and len: "n \<le> length widths"
    and fw: "fw \<le> avail" and req: "\<forall>i. 0 \<le> req i"
  shows "length ws2 = length widths"
    and "ws2 ! f = fw"
    and "\<forall>i<n. i \<noteq> f \<longrightarrow> ws2 ! i = min (req i) per"
    and "0 \<le> per"
    and "others_sum n f ((!) ws2) \<le> avail - fw"
    and "others_sum n f ((!) ws2) \<le> others_sum n f req"
proof -
  have len1: "n \<le> length (widths[f := fw])" using len by simp
  note c = cap_loop [where req = req and f = f and per = per, OF len1, folded ws2_def]
  show l: "length ws2 = length widths" using c(1) by simp
  show "ws2 ! f = fw" using c(3) f len by simp
  show m: "\<forall>i<n. i \<noteq> f \<longrightarrow> ws2 ! i = min (req i) per" by (rule c(2))
  have pos: "0 < int n - 1" using n by simp
  have rem: "0 \<le> avail - fw" using fw by simp
  have pd: "per = (avail - fw) div (int n - 1)"
    unfolding per_def using rem pos by (rule sdiv_nonneg)
  show p0: "0 \<le> per"
    unfolding pd using rem pos by (simp add: pos_imp_zdiv_nonneg_iff)
  have "(int n - 1) * per \<le> avail - fw"
    unfolding pd using pos
    by (metis mult.commute div_mult_self_is_m mult_div_mod_eq le_add_same_cancel1
          pos_mod_sign order_less_imp_le add.commute)
  moreover have "others_sum n f ((!) ws2) \<le> others_sum n f (\<lambda>i. per)"
    by (rule others_sum_mono) (simp add: m)
  ultimately show "others_sum n f ((!) ws2) \<le> avail - fw"
    using others_sum_card [OF f, of per] by simp
  show "others_sum n f ((!) ws2) \<le> others_sum n f req"
    by (rule others_sum_mono) (simp add: m)
qed

text \<open>
  Claim C1 (focused mode fills the budget), as amended.  With \<open>available =
  terminalWidth - (columnCount - 1) - 2\<close>, the focused column gets
  \<open>focusedWidth = min (required + 2) available\<close>, every other column is capped at the
  smaller of its required width and the even share of \<open>available - focusedWidth\<close>,
  columns below their required width then grow in index order, and last each other
  column gets at most one more unit, in one pass in index order.  So the widths sum
  to \<open>available\<close> minus what is still unused after that pass: the part of
  \<open>available - focusedWidth\<close> beyond the other columns' total required width plus
  one unit for each of them.  The sum is exactly \<open>available\<close> when that part is not
  positive, and less otherwise.
\<close>

theorem focused_layout_sum:
  assumes "0 \<le> focusedCol" and "focusedCol < int numColumns"
    and "2 \<le> numColumns" and "numColumns \<le> (if isPendingView then 9 else 8)"
    and "length widths = 9"
  shows "sum_list (take numColumns
           (calculateColumnWidths focusedCol allPending widths terminalCols numColumns
              defaultWidths js isPendingView))
         = (let available = terminalCols - (int numColumns - 1) - 2;
                req = (\<lambda>i. getMaxColumnWidth allPending i js isPendingView);
                focusedWidth = min (req (nat focusedCol) + 2) available;
                unused = available - focusedWidth - others_sum numColumns (nat focusedCol) req
                           - (int numColumns - 1)
            in available - max 0 unused)"
proof -
  define req where "req = (\<lambda>i. getMaxColumnWidth allPending i js isPendingView)"
  define f where "f = nat focusedCol"
  define n where "n = numColumns"
  define avail where "avail = terminalCols - (int n - 1) - 2"
  define fw where "fw = min (req f + 2) avail"
  define ws2 where "ws2 = for_loop 0 n (\<lambda>_. True)
                     (cap_step req f ((avail - fw) sdiv (int n - 1))) (widths[f := fw])"
  define leftover where "leftover = avail - fw - others_sum n f ((!) ws2)"
  define R where "R = others_sum n f req"
  define res where "res = calculateColumnWidths focusedCol allPending widths terminalCols
                            numColumns defaultWidths js isPendingView"
  have f: "f < n" using assms(1,2) by (simp add: f_def n_def)
  have n2: "2 \<le> n" using assms(3) by (simp add: n_def)
  have len: "n \<le> length widths" using assms(4,5) by (simp add: n_def split: if_splits)
  have fwle: "fw \<le> avail" by (simp add: fw_def)
  have req0: "\<forall>i. 0 \<le> req i"
    using getMaxColumnWidth_bounds [of allPending _ js isPendingView]
    by (auto simp: req_def intro: order_trans [of 0 1])
  note cap = focused_capped [where req = req and widths = widths, OF f n2 len fwle req0,
      folded ws2_def]
  have branch: "res = (if leftover > 0
            then fst (for_loop 0 n some_left (spread_step f)
                       (for_loop 0 n some_left (grow_step req f) (ws2, leftover)))
            else ws2)"
    unfolding res_def leftover_def ws2_def fw_def avail_def f_def req_def n_def
    using assms(1,2) by (rule focused_branch)
  have lo0: "0 \<le> leftover" using cap(5) by (simp add: leftover_def)
  have split: "sum_list (take n ws) = ws ! f + others_sum n f ((!) ws)"
    if "length ws = length widths" for ws
    using sum_list_take_nth [of n ws] total_split [OF f, of "(!) ws"] that len by simp
  have "sum_list (take n res) = avail - max 0 (avail - fw - R - (int n - 1))"
  proof (cases "leftover > 0")
    case False
    with lo0 have z: "leftover = 0" by simp
    then have u: "others_sum n f ((!) ws2) = avail - fw" by (simp add: leftover_def)
    with cap(6) have "avail - fw \<le> R" by (simp add: R_def)
    then have "max 0 (avail - fw - R - (int n - 1)) = 0" using n2 by simp
    moreover have "sum_list (take n res) = avail"
      using False branch split [OF cap(1)] cap(2) u by simp
    ultimately show ?thesis by simp
  next
    case True
    have le2: "\<forall>i<n. i \<noteq> f \<longrightarrow> ws2 ! i \<le> req i"
      using cap(3) by simp
    have len2: "n \<le> length ws2" using cap(1) len by simp
    from grow_loop [OF len2 lo0 le2]
    obtain ws3 l3 where g: "for_loop 0 n some_left (grow_step req f) (ws2, leftover) = (ws3, l3)"
      "length ws3 = length ws2" "0 \<le> l3"
      "others_sum n f ((!) ws3) + l3 = others_sum n f ((!) ws2) + leftover"
      "ws3 ! f = ws2 ! f" "\<forall>i<n. i \<noteq> f \<longrightarrow> ws3 ! i \<le> req i"
      "0 < l3 \<longrightarrow> (\<forall>i<n. i \<noteq> f \<longrightarrow> ws3 ! i = req i)"
      by blast
    have len3: "n \<le> length ws3" using g(2) len2 by simp
    from spread_loop [OF len3 g(3) f]
    obtain ws4 l4 where sp: "for_loop 0 n some_left (spread_step f) (ws3, l3) = (ws4, l4)"
      "length ws4 = length ws3"
      "others_sum n f ((!) ws4) + l4 = others_sum n f ((!) ws3) + l3"
      "ws4 ! f = ws3 ! f" "l4 = max 0 (l3 - (int n - 1))"
      by blast
    have r4: "res = ws4" using True branch g(1) sp(1) by simp
    have tot: "others_sum n f ((!) ws4) + l4 = avail - fw"
      using sp(3) g(4) by (simp add: leftover_def)
    have l3: "l3 = max 0 (avail - fw - R)"
    proof (cases "0 < l3")
      case True
      with g(7) have "others_sum n f ((!) ws3) = R"
        unfolding R_def by (intro others_sum_cong) simp
      with g(4) True show ?thesis by (simp add: leftover_def)
    next
      case False
      with g(3) have z: "l3 = 0" by simp
      have "others_sum n f ((!) ws3) \<le> R"
        unfolding R_def using g(6) by (intro others_sum_mono) simp
      with g(4) z show ?thesis by (simp add: leftover_def)
    qed
    have "l4 = max 0 (avail - fw - R - (int n - 1))"
      using sp(5) l3 n2 by (simp add: max_def)
    moreover have "sum_list (take n res) = fw + others_sum n f ((!) ws4)"
      using split [of ws4] sp(2,4) g(2,5) cap(1,2) r4 by simp
    ultimately show ?thesis using tot by simp
  qed
  then show ?thesis
    by (simp add: res_def n_def avail_def fw_def R_def f_def req_def Let_def)
qed

lemma sample_required_sum:
  "others_sum 8 0 (\<lambda>i. getMaxColumnWidth [] i [] False) = 55"
  by code_simp

lemma sample_focused_80:
  "calculateColumnWidths 0 [] (replicate 9 0) 80 8 [] [] False = [8, 9, 9, 9, 11, 6, 10, 8, 0]"
  by code_simp

text \<open>
  The running view without jobs, column 0 focused: at 60 columns the widths fill the
  budget of 51; at 80 columns they sum to 70.
\<close>

theorem focused_layout_sum_witness:
  "sum_list (take 8 (calculateColumnWidths 0 [] (replicate 9 0) 60 8 [] [] False)) = 60 - (8 - 1) - 2
   \<and> sum_list (take 8 (calculateColumnWidths 0 [] (replicate 9 0) 80 8 [] [] False)) = 70"
proof -
  have a: "(0::int) \<le> 0" "(0::int) < int 8" "(2::nat) \<le> 8" "(8::nat) \<le> (if False then 9 else 8)"
    "length (replicate 9 (0::int)) = 9"
    by simp_all
  have g0: "getMaxColumnWidth [] 0 [] False = 6" by code_simp
  from focused_layout_sum [OF a, of "[]" 60 "[]" "[]"]
  have "sum_list (take 8 (calculateColumnWidths 0 [] (replicate 9 0) 60 8 [] [] False)) = 60 - (8 - 1) - 2"
    by (simp add: Let_def g0 sample_required_sum)
  moreover
  from focused_layout_sum [OF a, of "[]" 80 "[]" "[]"]
  have "sum_list (take 8 (calculateColumnWidths 0 [] (replicate 9 0) 80 8 [] [] False)) = 70"
    by (simp add: Let_def g0 sample_required_sum)
  ultimately show ?thesis by blast
qed

text \<open>
  Claim C1 as stated fails: at 80 columns the budget is 71 and the leftover after
  the capping pass is 9, not negative, but the widths sum to 70.  The last pass
  hands out 7 units, one for each other column, and stops.
\<close>

theorem focused_layout_sum_counterexample:
  "sum_list (take 8 (calculateColumnWidths 0 [] (replicate 9 0) 80 8 [] [] False)) = 70
   \<and> (80::int) - (8 - 1) - 2 = 71"
  by (simp add: sample_focused_80)

text \<open>
  Claim C9 (no floor in focused mode).  Whenever the focused column's width
  \<open>min (required + 2) available\<close> is the whole available budget, every other column
  is assigned width 0; the floors of 5 and 8 that the default mode applies when
  over budget have no counterpart here.
\<close>

theorem focused_no_floor:
  assumes "0 \<le> focusedCol" and "focusedCol < int numColumns"
    and "2 \<le> numColumns" and "numColumns \<le> (if isPendingView then 9 else 8)"
    and "length widths = 9"
    and "terminalCols - (int numColumns - 1) - 2
           \<le> getMaxColumnWidth allPending (nat focusedCol) js isPendingView + 2"
  shows "\<forall>i<numColumns. i \<noteq> nat focusedCol \<longrightarrow>
           calculateColumnWidths focusedCol allPending widths terminalCols numColumns
             defaultWidths js isPendingView ! i = 0"
proof -
  define req where "req = (\<lambda>i. getMaxColumnWidth allPending i js isPendingView)"
  define f where "f = nat focusedCol"
  define n where "n = numColumns"
  define avail where "avail = terminalCols - (int n - 1) - 2"
  define fw where "fw = min (req f + 2) avail"
  define ws2 where "ws2 = for_loop 0 n (\<lambda>_. True)
                     (cap_step req f ((avail - fw) sdiv (int n - 1))) (widths[f := fw])"
  define leftover where "leftover = avail - fw - others_sum n f ((!) ws2)"
  define res where "res = calculateColumnWidths focusedCol allPending widths terminalCols
                            numColumns defaultWidths js isPendingView"
  have f: "f < n" using assms(1,2) by (simp add: f_def n_def)
  have n2: "2 \<le> n" using assms(3) by (simp add: n_def)
  have len: "n \<le> length widths" using assms(4,5) by (simp add: n_def split: if_splits)
  have fwle: "fw \<le> avail" by (simp add: fw_def)
  have req1: "\<forall>i. 1 \<le> req i"
    using getMaxColumnWidth_bounds [of allPending _ js isPendingView] by (simp add: req_def)
  then have req0: "\<forall>i. 0 \<le> req i"
    by (auto intro: order_trans [of 0 1])
  note cap = focused_capped [where req = req and widths = widths, OF f n2 len fwle req0,
      folded ws2_def]
  have branch: "res = (if leftover > 0
            then fst (for_loop 0 n some_left (spread_step f)
                       (for_loop 0 n some_left (grow_step req f) (ws2, leftover)))
            else ws2)"
    unfolding res_def leftover_def ws2_def fw_def avail_def f_def req_def n_def
    using assms(1,2) by (rule focused_branch)
  have all: "fw = avail"
    using assms(6) by (simp add: fw_def avail_def req_def f_def n_def)
  then have zero: "\<forall>i<n. i \<noteq> f \<longrightarrow> ws2 ! i = 0"
    using cap(3) req0 by (simp add: min_absorb2)
  then have "others_sum n f ((!) ws2) = others_sum n f (\<lambda>i. 0)"
    by (intro others_sum_cong) simp
  then have "leftover = 0"
    using all others_sum_card [OF f, of 0] by (simp add: leftover_def)
  with branch have "res = ws2" by simp
  with zero show ?thesis by (simp add: res_def n_def f_def)
qed

text \<open>A terminal of 10 columns, column 0 focused: column 1 has width 0.\<close>

theorem focused_no_floor_witness:
  "calculateColumnWidths 0 [] (replicate 9 0) 10 8 [] [] False ! 1 = 0"
proof -
  have a: "(0::int) \<le> 0" "(0::int) < int 8" "(2::nat) \<le> 8" "(8::nat) \<le> (if False then 9 else 8)"
    "length (replicate 9 (0::int)) = 9"
    by simp_all
  have g0: "getMaxColumnWidth [] 0 [] False = 6" by code_simp
  have b: "(10::int) - (int 8 - 1) - 2 \<le> getMaxColumnWidth [] (nat 0) [] False + 2"
    by (simp add: g0)
  from focused_no_floor [OF a b, of "[]"] show ?thesis by simp
qed

section \<open>The default mode\<close>

lemma others_sum_all: "others_sum n n g = (\<Sum>i<n. g i)"
proof -
  have "{..<n} - {n} = {..<n}" by auto
  then show ?thesis by (simp add: others_sum_def)
qed

lemma sum_update:
  fixes ws :: "int list"
  assumes "j < n" and "j < length ws"
  shows "(\<Sum>i<n. ws[j := v] ! i) = (\<Sum>i<n. ws ! i) - ws ! j + v"
  using others_sum_update [of j n n ws v] assms by (simp add: others_sum_all)

lemma assign_loop:
  fixes req :: "nat \<Rightarrow> int" and ws0 :: "int list" and n :: nat
  defines "ws1 \<equiv> for_loop 0 n (\<lambda>_. True) (\<lambda>i ws. ws[i := req i]) ws0"
  assumes len: "n \<le> length ws0"
  shows "length ws1 = length ws0" and "\<forall>i<n. ws1 ! i = req i"
proof -
  define P where "P = (\<lambda>j (ws :: int list). length ws = length ws0 \<and> (\<forall>i<j. ws ! i = req i))"
  have "P n ws1"
    unfolding ws1_def
  proof (rule for_loop_all)
    show "P 0 ws0" by (simp add: P_def)
  next
    fix j t
    assume "j < n" and "P j t"
    with len show "P (Suc j) (t[j := req j])"
      by (auto simp: P_def less_Suc_eq nth_list_update)
  qed
  then show "length ws1 = length ws0" and "\<forall>i<n. ws1 ! i = req i"
    by (simp_all add: P_def)
qed

lemma share_step_keeps:
  fixes req :: "nat \<Rightarrow> int"
  assumes j: "j < n" and len: "n \<le> len" and c: "some_left t" and k: "budget_kept n len totalReq t"
    and tr: "0 < totalRequired" and r: "0 \<le> req j" "req j \<le> totalRequired"
  shows "budget_kept n len totalReq (share_step req totalRequired j t)"
proof -
  obtain ws e where t: "t = (ws, e)" by (cases t)
  from c t have e: "0 < e" by (simp add: some_left_def)
  from k t have a: "length ws = len" "(\<Sum>i<n. ws ! i) + e = totalReq"
    by (simp_all add: budget_kept_def)
  define p where "p = (req j * e) sdiv totalRequired"
  define g where "g = min p 20"
  have pd: "p = (req j * e) div totalRequired"
    unfolding p_def using r(1) e tr by (intro sdiv_nonneg) simp_all
  have p0: "0 \<le> p"
    unfolding pd using r(1) e tr by (simp add: pos_imp_zdiv_nonneg_iff)
  have "req j * e \<le> totalRequired * e"
    using r(2) e by (simp add: mult_right_mono)
  then have "(req j * e) div totalRequired \<le> (totalRequired * e) div totalRequired"
    using tr by (intro zdiv_mono1) simp_all
  then have pe: "p \<le> e" using tr by (simp add: pd)
  have g: "0 \<le> g" "g \<le> e" using p0 pe by (simp_all add: g_def)
  have s: "share_step req totalRequired j t = (ws[j := ws ! j + g], e - g)"
    by (simp add: share_step_def t Let_def p_def g_def)
  have "(\<Sum>i<n. ws[j := ws ! j + g] ! i) = (\<Sum>i<n. ws ! i) + g"
    using sum_update [of j n ws "ws ! j + g"] j len a(1) by simp
  with a g show ?thesis by (simp add: budget_kept_def s)
qed

lemma even_step_keeps:
  assumes j: "j < n" and len: "n \<le> len" and c: "some_left t" and k: "budget_kept n len totalReq t"
  shows "budget_kept n len totalReq (even_step j t)"
proof -
  obtain ws e where t: "t = (ws, e)" by (cases t)
  from c t have e: "0 < e" by (simp add: some_left_def)
  from k t have a: "length ws = len" "(\<Sum>i<n. ws ! i) + e = totalReq"
    by (simp_all add: budget_kept_def)
  have "(\<Sum>i<n. ws[j := ws ! j + 1] ! i) = (\<Sum>i<n. ws ! i) + 1"
    using sum_update [of j n ws "ws ! j + 1"] j len a(1) by simp
  with a e show ?thesis by (simp add: budget_kept_def even_step_def t)
qed

lemma for_loop_keeps:
  assumes "Inv s" and "\<And>j t. j < n \<Longrightarrow> cond t \<Longrightarrow> Inv t \<Longrightarrow> Inv (body j t)"
  shows "Inv (for_loop 0 n cond body s)"
  using for_loop_rule [where P = "\<lambda>j. Inv" and i = 0 and n = n and cond = cond and body = body
      and s = s] assms by auto

lemma shrink_loop:
  fixes req :: "nat \<Rightarrow> int" and ws0 :: "int list" and n :: nat and avail totalReq :: int
  defines "ws1 \<equiv> for_loop 0 n (\<lambda>_. True) (shrink_step req avail totalReq) ws0"
  assumes len: "n \<le> length ws0"
  shows "\<forall>i<n. (if i = 4 \<or> i = 5 then 5 else 8) \<le> ws1 ! i"
proof -
  define P where "P = (\<lambda>j (ws :: int list). length ws = length ws0
                         \<and> (\<forall>i<j. (if i = 4 \<or> i = 5 then 5 else 8) \<le> ws ! i))"
  have "P n ws1"
    unfolding ws1_def
  proof (rule for_loop_all)
    show "P 0 ws0" by (simp add: P_def)
  next
    fix j t
    assume j: "j < n" and p: "P j t"
    then have jl: "j < length t" using len by (simp add: P_def)
    have "\<forall>i<Suc j. (if i = 4 \<or> i = 5 then 5 else 8) \<le> shrink_step req avail totalReq j t ! i"
    proof (intro allI impI)
      fix i assume "i < Suc j"
      then consider "i = j" | "i < j" by arith
      then show "(if i = 4 \<or> i = 5 then 5 else 8) \<le> shrink_step req avail totalReq j t ! i"
      proof cases
        case 1
        with jl show ?thesis by (simp add: shrink_step_def Let_def)
      next
        case 2
        with p show ?thesis by (simp add: shrink_step_def Let_def P_def)
      qed
    qed
    with p show "P (Suc j) (shrink_step req avail totalReq j t)"
      by (simp add: P_def shrink_step_def Let_def)
  qed
  then show ?thesis by (simp add: P_def)
qed

lemma default_branch:
  fixes focusedCol terminalCols :: int and numColumns :: nat
    and allPending js :: "Job list" and isPendingView :: bool and widths :: "int list"
  defines "req \<equiv> (\<lambda>i. getMaxColumnWidth allPending i js isPendingView)"
  defines "avail \<equiv> terminalCols - (int numColumns - 1) - 2"
  defines "totalReq \<equiv> (\<Sum>i<numColumns. req i)"
  assumes "\<not> (0 \<le> focusedCol \<and> focusedCol < int numColumns)"
  shows "calculateColumnWidths focusedCol allPending widths terminalCols numColumns dw js isPendingView
         = (if totalReq \<le> avail
            then fst (for_loop 0 numColumns some_left even_step
                       (for_loop 0 numColumns some_left (share_step req totalReq)
                          (for_loop 0 numColumns (\<lambda>_. True) (\<lambda>i ws. ws[i := req i]) widths,
                           avail - totalReq)))
            else for_loop 0 numColumns (\<lambda>_. True) (shrink_step req avail totalReq) widths)"
  using assms(4)
  unfolding calculateColumnWidths_def Let_def total_loop req_def avail_def totalReq_def
  by auto

text \<open>
  Claim C2 (default mode).  Without a focused column, for every terminal width (in
  particular every width that is at least the sum of the floors): when the total
  of the required widths is at most \<open>available = terminalWidth - (columnCount - 1) - 2\<close>,
  the assigned widths plus the separators and the margin fit into the terminal
  width; when the total exceeds \<open>available\<close>, every assigned width is at least its
  floor, 5 for the columns 4 and 5 and 8 for every other column.
\<close>

theorem default_layout_budget:
  assumes "\<not> (0 \<le> focusedCol \<and> focusedCol < int numColumns)"
    and "numColumns \<le> (if isPendingView then 9 else 8)"
    and "length widths = 9"
  shows "((\<Sum>i<numColumns. getMaxColumnWidth allPending i js isPendingView)
            \<le> terminalCols - (int numColumns - 1) - 2 \<longrightarrow>
          sum_list (take numColumns
            (calculateColumnWidths focusedCol allPending widths terminalCols numColumns
               defaultWidths js isPendingView)) + (int numColumns - 1) + 2 \<le> terminalCols)
       \<and> (terminalCols - (int numColumns - 1) - 2
            < (\<Sum>i<numColumns. getMaxColumnWidth allPending i js isPendingView) \<longrightarrow>
          (\<forall>i<numColumns. (if i = 4 \<or> i = 5 then 5 else 8)
              \<le> calculateColumnWidths focusedCol allPending widths terminalCols numColumns
                   defaultWidths js isPendingView ! i))"
proof -
  define req where "req = (\<lambda>i. getMaxColumnWidth allPending i js isPendingView)"
  define n where "n = numColumns"
  define avail where "avail = terminalCols - (int n - 1) - 2"
  define totalReq where "totalReq = (\<Sum>i<n. req i)"
  define res where "res = calculateColumnWidths focusedCol allPending widths terminalCols
                            numColumns defaultWidths js isPendingView"
  define ws1 where "ws1 = for_loop 0 n (\<lambda>_. True) (\<lambda>i ws. ws[i := req i]) widths"
  have len: "n \<le> length widths" using assms(2,3) by (simp add: n_def split: if_splits)
  have req1: "\<forall>i. 1 \<le> req i"
    using getMaxColumnWidth_bounds [of allPending _ js isPendingView] by (simp add: req_def)
  have branch: "res = (if totalReq \<le> avail
            then fst (for_loop 0 n some_left even_step
                       (for_loop 0 n some_left (share_step req totalReq) (ws1, avail - totalReq)))
            else for_loop 0 n (\<lambda>_. True) (shrink_step req avail totalReq) widths)"
    unfolding res_def totalReq_def avail_def req_def n_def ws1_def
    using assms(1) by (rule default_branch)
  have fit: "sum_list (take n res) + (int n - 1) + 2 \<le> terminalCols" if t: "totalReq \<le> avail"
  proof -
    note a = assign_loop [where req = req, OF len, folded ws1_def]
    have s1: "(\<Sum>i<n. ws1 ! i) = totalReq"
      unfolding totalReq_def using a(2) by (intro sum.cong) simp_all
    have k0: "budget_kept n (length widths) avail (ws1, avail - totalReq)"
      using a(1) s1 t by (simp add: budget_kept_def)
    have le_total: "req j \<le> totalReq" if "j < n" for j
    proof -
      have "0 \<le> req i" for i
        using req1 [rule_format, of i] by linarith
      then have "req j \<le> (\<Sum>i<n. req i)"
        using that by (intro member_le_sum) simp_all
      then show ?thesis by (simp add: totalReq_def)
    qed
    have k1: "budget_kept n (length widths) avail
                (for_loop 0 n some_left (share_step req totalReq) (ws1, avail - totalReq))"
    proof (rule for_loop_keeps [where Inv = "budget_kept n (length widths) avail", OF k0])
      fix j t
      assume j: "j < n" and c: "some_left t" and k: "budget_kept n (length widths) avail t"
      have r1: "1 \<le> req j" using req1 by simp
      then have "0 \<le> req j" by linarith
      moreover have "0 < totalReq"
        using le_total [OF j] r1 by linarith
      ultimately show "budget_kept n (length widths) avail (share_step req totalReq j t)"
        using share_step_keeps [OF j len c k] le_total [OF j] by simp
    qed
    have k2: "budget_kept n (length widths) avail
                (for_loop 0 n some_left even_step
                   (for_loop 0 n some_left (share_step req totalReq) (ws1, avail - totalReq)))"
      by (rule for_loop_keeps [where Inv = "budget_kept n (length widths) avail", OF k1])
        (rule even_step_keeps [OF _ len])
    have "length res = length widths" "(\<Sum>i<n. res ! i) \<le> avail"
      using k2 t branch by (simp_all add: budget_kept_def)
    then have "sum_list (take n res) \<le> avail"
      using sum_list_take_nth [of n res] len by simp
    then show ?thesis by (simp add: avail_def)
  qed
  have over: "\<forall>i<n. (if i = 4 \<or> i = 5 then 5 else 8) \<le> res ! i" if t: "avail < totalReq"
    using shrink_loop [where req = req and avail = avail and totalReq = totalReq, OF len] branch t
    by simp
  from fit over show ?thesis
    by (simp add: res_def n_def avail_def totalReq_def req_def)
qed

lemma sample_required_total:
  "(\<Sum>i<8. getMaxColumnWidth [] i [] False) = 61"
  by code_simp

text \<open>
  The running view without jobs (required widths 61 in total): it fits at 80 columns,
  and at 60 columns the columns 0 and 4 have at least their floors 8 and 5.
\<close>

theorem default_layout_budget_witness:
  "sum_list (take 8 (calculateColumnWidths (- 1) [] (replicate 9 0) 80 8 [] [] False))
      + (int 8 - 1) + 2 \<le> 80
   \<and> 8 \<le> calculateColumnWidths (- 1) [] (replicate 9 0) 60 8 [] [] False ! 0
   \<and> 5 \<le> calculateColumnWidths (- 1) [] (replicate 9 0) 60 8 [] [] False ! 4"
proof -
  have a: "\<not> (0 \<le> (- 1 :: int) \<and> (- 1 :: int) < int 8)"
    "(8::nat) \<le> (if False then 9 else 8)" "length (replicate 9 (0::int)) = 9"
    by simp_all
  from default_layout_budget [OF a, of "[]" "[]" 80 "[]"]
  have "sum_list (take 8 (calculateColumnWidths (- 1) [] (replicate 9 0) 80 8 [] [] False))
      + (int 8 - 1) + 2 \<le> 80"
    by (simp add: sample_required_total)
  moreover
  from default_layout_budget [OF a, of "[]" "[]" 60 "[]"]
  have "\<forall>i<8. (if i = 4 \<or> i = 5 then 5 else 8)
          \<le> calculateColumnWidths (- 1) [] (replicate 9 0) 60 8 [] [] False ! i"
    by (simp add: sample_required_total)
  then have fl: "(if i = 4 \<or> i = 5 then 5 else 8)
          \<le> calculateColumnWidths (- 1) [] (replicate 9 0) 60 8 [] [] False ! i" if "i < 8" for i
    using that by blast
  have "8 \<le> calculateColumnWidths (- 1) [] (replicate 9 0) 60 8 [] [] False ! 0"
    using fl [of 0] by simp
  moreover have "5 \<le> calculateColumnWidths (- 1) [] (replicate 9 0) 60 8 [] [] False ! 4"
    using fl [of 4] by simp
  ultimately show ?thesis by blast
qed

end
